theory Spec2Isabelle
  imports Main
begin

section \<open>The retryable package: data model\<close>

text \<open>
  The Go package \<^verbatim>\<open>retryable\<close> (file \<^verbatim>\<open>retrayable.go\<close>) runs a function up to
  \<^verbatim>\<open>retries\<close> times. Each iteration of \<^verbatim>\<open>Exec\<close> spawns the function on a goroutine
  that writes its result to a fresh channel \<^verbatim>\<open>ch\<close> of capacity one, and then waits in a
  \<^verbatim>\<open>select\<close> for the first of: the result, a timer, the cancellation context.

  The embedding keeps a clock. Instants and durations are integers (nanoseconds, as
  \<^verbatim>\<open>time.Duration\<close>). What the caller's function does at its \<open>i\<close>-th invocation of
  a run is a value of type \<open>call\<close>: it returns an error value (or nil) after a
  duration, or it never returns.
\<close>

subsection \<open>Errors\<close>

text \<open>
  An \<^verbatim>\<open>error\<close> made by \<^verbatim>\<open>errors.New\<close> is an \<^verbatim>\<open>errorString\<close>; what a caller can
  observe of it is its message. \<open>None\<close> of type \<open>error option\<close> is Go's nil.
\<close>

datatype error = errorString string

definition CANCEL_ERROR :: string where
  "CANCEL_ERROR = ''Function cancelled''"

definition TIMEOUT_ERROR :: string where
  "TIMEOUT_ERROR = ''Function timeout''"

definition errors_New :: "string \<Rightarrow> error" where
  "errors_New s = errorString s"

subsection \<open>Stats and Retrayable\<close>

record Stats =
  Err :: "error option"
  Retries :: int
  Timeout :: int

text \<open>One invocation of \<^verbatim>\<open>fn\<close>: its duration and result, or no return at all.\<close>

datatype call = Returns nat "error option" | Hangs

text \<open>
  The struct \<^verbatim>\<open>Retrayable\<close>. Field \<open>fn\<close> gives the behaviour of the \<open>i\<close>-th
  invocation that a run makes (counted from 0). The context made by
  \<^verbatim>\<open>context.WithCancel\<close> is the field \<open>cancelContext\<close>: \<open>None\<close> when \<^verbatim>\<open>cancelFn\<close> is
  never called, \<open>Some c\<close> when it is first called at instant \<open>c\<close>, so that the
  \<^verbatim>\<open>Done()\<close> channel is closed from \<open>c\<close> on. The caller may call it from another
  goroutine while a run is under way: \<open>c\<close> may lie before, within or after a run.
\<close>

record Retrayable =
  fn :: "nat \<Rightarrow> call"
  retries :: int
  sleep :: int
  timeout :: int
  cancelContext :: "int option"

definition SetTimeout :: "Retrayable \<Rightarrow> int \<Rightarrow> Retrayable" where
  "SetTimeout r t = r\<lparr>timeout := t\<rparr>"

definition SetRetries :: "Retrayable \<Rightarrow> int \<Rightarrow> Retrayable" where
  "SetRetries r n = r\<lparr>retries := n\<rparr>"

definition SetSleep :: "Retrayable \<Rightarrow> int \<Rightarrow> Retrayable" where
  "SetSleep r d = r\<lparr>sleep := d\<rparr>"

text \<open>
  \<^verbatim>\<open>Cancel\<close> calls \<^verbatim>\<open>cancelFn\<close> at instant \<open>t\<close>. A context is cancelled once: a
  second call changes nothing, so the earliest call counts.
\<close>

definition Cancel :: "Retrayable \<Rightarrow> int \<Rightarrow> Retrayable" where
  "Cancel r t =
     r\<lparr>cancelContext := Some (case cancelContext r of None \<Rightarrow> t | Some c \<Rightarrow> min c t)\<rparr>"

text \<open>
  \<^verbatim>\<open>Retry\<close> builds the value: one attempt, no sleep, no timeout, and a fresh context
  that lives as long as the value does.
\<close>

definition Retry :: "(nat \<Rightarrow> call) \<Rightarrow> Retrayable" where
  "Retry f = \<lparr>fn = f, retries = 1, sleep = 0, timeout = 0, cancelContext = None\<rparr>"

subsection \<open>The three sources of one select\<close>

text \<open>
  Each source is the instant at which its channel can be received from, \<open>None\<close> when
  that never happens. \<^verbatim>\<open>GetTimeout\<close> returns a channel nobody writes to when the
  timeout is 0, and \<^verbatim>\<open>time.After\<close> otherwise (which fires at once for a negative
  duration).
\<close>

definition GetTimeout :: "Retrayable \<Rightarrow> int \<Rightarrow> int option" where
  "GetTimeout r now = (if timeout r = 0 then None else Some (now + max 0 (timeout r)))"

definition Done :: "Retrayable \<Rightarrow> int \<Rightarrow> int option" where
  "Done r now = (case cancelContext r of None \<Rightarrow> None | Some c \<Rightarrow> Some (max now c))"

text \<open>The goroutine \<^verbatim>\<open>ch <- r.fn()\<close> started at \<open>now\<close>: when it sends, and what.\<close>

definition completes :: "call \<Rightarrow> int \<Rightarrow> (int \<times> error option) option" where
  "completes g now = (case g of Returns d v \<Rightarrow> Some (now + int d, v) | Hangs \<Rightarrow> None)"

datatype fired = RecvCh "error option" | RecvTimeout | RecvDone

fun omin :: "int option \<Rightarrow> int option \<Rightarrow> int option" where
  "omin None y = y"
| "omin (Some a) None = Some a"
| "omin (Some a) (Some b) = Some (min a b)"

text \<open>
  \<^verbatim>\<open>select\<close>, entered at \<open>now\<close>, first looks for a case that can proceed already. The
  goroutine and the timer are made by the iteration itself, immediately before, and
  have not written yet at that instant; of the three channels only \<^verbatim>\<open>Done()\<close> can be
  ready on entry, and then that case is taken. Otherwise the select blocks until a case
  can proceed and takes a case that can; among several it chooses by a pseudo-random
  number \<open>rnd\<close>. \<open>None\<close>: no case ever can.
\<close>

definition select :: "nat \<Rightarrow> int \<Rightarrow> (int \<times> error option) option \<Rightarrow> int option \<Rightarrow> int option
    \<Rightarrow> (fired \<times> int) option" where
  "select rnd now c tm dn =
     (if dn = Some now then Some (RecvDone, now)
      else
        (case omin (map_option fst c) (omin tm dn) of
           None \<Rightarrow> None
         | Some m \<Rightarrow>
             (let ready =
                    (case c of
                       Some (t, v) \<Rightarrow> if t = m then [RecvCh v] else []
                     | None \<Rightarrow> [])
                    @ (if tm = Some m then [RecvTimeout] else [])
                    @ (if dn = Some m then [RecvDone] else [])
              in Some (ready ! (rnd mod length ready), m))))"

subsection \<open>The handoff channel\<close>

text \<open>
  A Go channel with a buffer. Sending on a closed channel panics, as does closing one
  twice; a send into a full buffer and a receive from an empty open channel block.
\<close>

record chan =
  buf :: "error option list"
  cap :: nat
  closed :: bool

datatype fault = Panic string | Blocked

datatype chan_op = Send "error option" | Recv | Close

definition make_chan :: "nat \<Rightarrow> chan" where
  "make_chan n = \<lparr>buf = [], cap = n, closed = False\<rparr>"

fun chan_step :: "chan_op \<Rightarrow> chan \<Rightarrow> fault + chan" where
  "chan_step (Send v) ch =
     (if closed ch then Inl (Panic ''send on closed channel'')
      else if length (buf ch) < cap ch then Inr (ch\<lparr>buf := buf ch @ [v]\<rparr>)
      else Inl Blocked)"
| "chan_step Recv ch =
     (case buf ch of
        v # vs \<Rightarrow> Inr (ch\<lparr>buf := vs\<rparr>)
      | [] \<Rightarrow> if closed ch then Inr ch else Inl Blocked)"
| "chan_step Close ch =
     (if closed ch then Inl (Panic ''close of closed channel'')
      else Inr (ch\<lparr>closed := True\<rparr>))"

fun chan_run :: "chan_op list \<Rightarrow> chan \<Rightarrow> fault + chan" where
  "chan_run [] ch = Inr ch"
| "chan_run (x # xs) ch =
     (case chan_step x ch of Inl f \<Rightarrow> Inl f | Inr ch' \<Rightarrow> chan_run xs ch')"

text \<open>
  The goroutine's send, placed before or after instant \<open>t\<close> at which the iteration's
  select resolved.
\<close>

definition sent_by :: "call \<Rightarrow> int \<Rightarrow> int \<Rightarrow> chan_op list" where
  "sent_by g now t =
     (case completes g now of Some (t', v) \<Rightarrow> if t' \<le> t then [Send v] else [] | None \<Rightarrow> [])"

definition sent_after :: "call \<Rightarrow> int \<Rightarrow> int \<Rightarrow> chan_op list" where
  "sent_after g now t =
     (case completes g now of Some (t', v) \<Rightarrow> if t < t' then [Send v] else [] | None \<Rightarrow> [])"

text \<open>
  The cancellation case closes the channel at \<open>t\<close>. A send made by then is in the
  buffer already; when the case is taken on entry (\<open>t = now\<close>) the goroutine has not
  sent yet, whatever its function does.
\<close>

definition closed_at :: "call \<Rightarrow> int \<Rightarrow> int \<Rightarrow> chan_op list" where
  "closed_at g now t =
     (if t = now then [Close] @ sent_by g now t @ sent_after g now t
      else sent_by g now t @ [Close] @ sent_after g now t)"

section \<open>Exec\<close>

text \<open>
  The record of one iteration, kept beside the program's own state so that properties
  of a run can speak of its course: when the iteration started, how its select
  resolved (which case, at which instant; \<open>None\<close> when it blocks for ever), how long
  it slept afterwards, and the operations made on its channel \<open>ch\<close>, by the goroutine
  and by \<^verbatim>\<open>Exec\<close>, in the order they happen.
\<close>

record attempt =
  started :: int
  race :: "(fired \<times> int) option"
  slept :: int
  handoff :: "chan_op list"

datatype flow = Continue Stats int | Return Stats int | Block

text \<open>
  The body of the \<^verbatim>\<open>for\<close> loop, for iteration \<open>i\<close> entered at instant \<open>now\<close>.
  \<^verbatim>\<open>time.Sleep\<close> returns at once for a duration that is not positive.
\<close>

definition iteration :: "Retrayable \<Rightarrow> nat \<Rightarrow> nat \<Rightarrow> Stats \<Rightarrow> int \<Rightarrow> attempt \<times> flow" where
  "iteration r rnd i stats now =
     (let stats = stats\<lparr>Retries := Retries stats + 1\<rparr>;
          g = fn r i
      in case select rnd now (completes g now) (GetTimeout r now) (Done r now) of
           None \<Rightarrow>
             (\<lparr>started = now, race = None, slept = 0, handoff = []\<rparr>, Block)
         | Some (RecvCh err, t) \<Rightarrow>
             (let stats = stats\<lparr>Err := err\<rparr> in
              if err = None
              then (\<lparr>started = now, race = Some (RecvCh err, t), slept = 0,
                     handoff = [Send err, Recv]\<rparr>, Return stats t)
              else (\<lparr>started = now, race = Some (RecvCh err, t), slept = max 0 (sleep r),
                     handoff = [Send err, Recv]\<rparr>, Continue stats (t + max 0 (sleep r))))
         | Some (RecvTimeout, t) \<Rightarrow>
             (\<lparr>started = now, race = Some (RecvTimeout, t), slept = 0,
               handoff = sent_by g now t @ sent_after g now t\<rparr>,
              Continue (stats\<lparr>Err := Some (errors_New TIMEOUT_ERROR),
                              Timeout := Timeout stats + 1\<rparr>) t)
         | Some (RecvDone, t) \<Rightarrow>
             (\<lparr>started = now, race = Some (RecvDone, t), slept = 0,
               handoff = closed_at g now t\<rparr>,
              Return (stats\<lparr>Err := Some (errors_New CANCEL_ERROR)\<rparr>) t))"

text \<open>
  A run of \<^verbatim>\<open>Exec\<close>: the Stats it returns and the instant of the return (\<open>None\<close> when
  \<^verbatim>\<open>Exec\<close> never returns), and its iterations in order.
\<close>

record run =
  returned :: "(Stats \<times> int) option"
  attempts :: "attempt list"

function Exec_loop :: "Retrayable \<Rightarrow> (nat \<Rightarrow> nat) \<Rightarrow> nat \<Rightarrow> Stats \<Rightarrow> int \<Rightarrow> run" where
  "Exec_loop r rnd i stats now =
     (if int i < retries r then
        (case iteration r (rnd i) i stats now of
           (a, Block) \<Rightarrow> \<lparr>returned = None, attempts = [a]\<rparr>
         | (a, Return stats' t) \<Rightarrow> \<lparr>returned = Some (stats', t), attempts = [a]\<rparr>
         | (a, Continue stats' t) \<Rightarrow>
             (let rest = Exec_loop r rnd (Suc i) stats' t
              in rest\<lparr>attempts := a # attempts rest\<rparr>))
      else \<lparr>returned = Some (stats, now), attempts = []\<rparr>)"
  by pat_completeness auto
termination
  by (relation "measure (\<lambda>(r, rnd, i, stats, now). nat (retries r - int i))") auto

declare Exec_loop.simps [simp del]

definition Exec :: "Retrayable \<Rightarrow> (nat \<Rightarrow> nat) \<Rightarrow> int \<Rightarrow> run" where
  "Exec r rnd now = Exec_loop r rnd 0 \<lparr>Err = None, Retries = - 1, Timeout = 0\<rparr> now"

text \<open>The selected case of an iteration, and the fate of the writes to its channel.\<close>

definition winner :: "attempt \<Rightarrow> fired option" where
  "winner a = map_option fst (race a)"

definition handoff_result :: "attempt \<Rightarrow> fault + chan" where
  "handoff_result a = chan_run (handoff a) (make_chan 1)"

text \<open>
  What each case of the select assigns to \<^verbatim>\<open>stats.Err\<close>, and the \<^verbatim>\<open>time.Sleep\<close> that
  follows it (only a non-nil result of the operation is followed by one).
\<close>

definition reported :: "fired \<Rightarrow> error option" where
  "reported w =
     (case w of
        RecvCh err \<Rightarrow> err
      | RecvTimeout \<Rightarrow> Some (errors_New TIMEOUT_ERROR)
      | RecvDone \<Rightarrow> Some (errors_New CANCEL_ERROR))"

definition pause :: "Retrayable \<Rightarrow> fired \<Rightarrow> int" where
  "pause r w = (case w of RecvCh (Some e) \<Rightarrow> max 0 (sleep r) | _ \<Rightarrow> 0)"

text \<open>The select of iteration \<open>i\<close> entered at \<open>now\<close>, and the counter's increment.\<close>

definition sel :: "Retrayable \<Rightarrow> (nat \<Rightarrow> nat) \<Rightarrow> nat \<Rightarrow> int \<Rightarrow> (fired \<times> int) option" where
  "sel r rnd i now =
     select (rnd i) now (completes (fn r i) now) (GetTimeout r now) (Done r now)"

abbreviation bump :: "Stats \<Rightarrow> Stats" where
  "bump st \<equiv> st\<lparr>Retries := Retries st + 1\<rparr>"

subsection \<open>What the caller sees\<close>




text \<open>
  How a run ended, and what a caller makes of \<open>Err\<close>: the errors made by \<^verbatim>\<open>Exec\<close> are
  known by their messages only.
\<close>

datatype ending = Succeeded | Failed | TimedOut | Cancelled

definition ended :: "fired \<Rightarrow> ending" where
  "ended w =
     (case w of
        RecvCh None \<Rightarrow> Succeeded
      | RecvCh (Some e) \<Rightarrow> Failed
      | RecvTimeout \<Rightarrow> TimedOut
      | RecvDone \<Rightarrow> Cancelled)"

definition classify :: "error option \<Rightarrow> ending" where
  "classify err =
     (case err of
        None \<Rightarrow> Succeeded
      | Some (errorString m) \<Rightarrow>
          if m = TIMEOUT_ERROR then TimedOut
          else if m = CANCEL_ERROR then Cancelled
          else Failed)"

subsection \<open>Scenarios\<close>

text \<open>Configurations on which the theorems below are instantiated.\<close>

definition boom :: error where
  "boom = errorString ''boom''"

text \<open>
  Fails after 2 (then sleeps 3), fails again but only after 50, past the timeout, and
  succeeds at the third call.
\<close>

definition flaky :: "nat \<Rightarrow> call" where
  "flaky i =
     (if i = 0 then Returns 2 (Some boom)
      else if i = 1 then Returns 50 (Some boom)
      else Returns 4 None)"

definition flaky_cfg :: Retrayable where
  "flaky_cfg = SetSleep (SetTimeout (SetRetries (Retry flaky) 4) 10) 3"

text \<open>
  Fails after 5, sleeps 3, and is cancelled at 20 while the second call, which never
  returns, is in flight.
\<close>

definition cancelled_cfg :: Retrayable where
  "cancelled_cfg =
     Cancel (SetSleep (SetRetries
       (Retry (\<lambda>i. if i = 0 then Returns 5 (Some boom) else Hangs)) 3) 3) 20"




text \<open>An operation that takes long, with no timeout set.\<close>

definition slow_cfg :: Retrayable where
  "slow_cfg = Retry (\<lambda>_. Returns 1000000 None)"

text \<open>Every call fails after 5; three attempts with a sleep of 2 after each.\<close>

definition failing_cfg :: Retrayable where
  "failing_cfg = SetSleep (SetRetries (Retry (\<lambda>_. Returns 5 (Some boom))) 3) 2"

text \<open>Every call takes 50 against a timeout of 10; two attempts, a sleep of 7 set.\<close>

definition stalling_cfg :: Retrayable where
  "stalling_cfg = SetSleep (SetTimeout (SetRetries (Retry (\<lambda>_. Returns 50 None)) 2) 10) 7"

section \<open>Lemmas on select\<close>

lemma nth_mod_mem: "xs \<noteq> [] \<Longrightarrow> xs ! (n mod length xs) \<in> set xs"
  by simp

lemma omin_None: "omin x y = None \<longleftrightarrow> x = None \<and> y = None"
  by (cases x; cases y) auto

lemma omin_Some_le:
  "omin x y = Some m \<Longrightarrow> (x = Some m \<or> y = Some m) \<and> (\<forall>a. x = Some a \<longrightarrow> m \<le> a) \<and> (\<forall>b. y = Some b \<longrightarrow> m \<le> b)"
  by (cases x; cases y) (auto simp: min_def split: if_splits)

lemma select_None: "select rnd now c tm dn = None \<longleftrightarrow> c = None \<and> tm = None \<and> dn = None"
  by (cases c; cases tm; cases dn) (auto simp: select_def Let_def)


lemma select_Some:
  assumes "select rnd now c tm dn = Some (w, t)"
  shows "(\<exists>v. w = RecvCh v \<and> c = Some (t, v)) \<or> (w = RecvTimeout \<and> tm = Some t)
         \<or> (w = RecvDone \<and> dn = Some t)"
    and "dn \<noteq> Some now \<Longrightarrow> omin (map_option fst c) (omin tm dn) = Some t"
proof -
  show "(\<exists>v. w = RecvCh v \<and> c = Some (t, v)) \<or> (w = RecvTimeout \<and> tm = Some t)
         \<or> (w = RecvDone \<and> dn = Some t)"
  proof (cases "dn = Some now")
    case True
    with assms show ?thesis by (simp add: select_def)
  next
    case False
    with assms obtain m where m: "omin (map_option fst c) (omin tm dn) = Some m"
      by (auto simp: select_def split: option.splits)
    define ready where "ready =
                   (case c of
                      Some (t, v) \<Rightarrow> if t = m then [RecvCh v] else []
                    | None \<Rightarrow> [])
                   @ (if tm = Some m then [RecvTimeout] else [])
                   @ (if dn = Some m then [RecvDone] else [])"
    from assms m False have wt: "w = ready ! (rnd mod length ready)" "t = m"
      by (auto simp: select_def Let_def ready_def)
    from m have "ready \<noteq> []"
      by (cases c; cases tm; cases dn) (auto simp: ready_def min_def split: if_splits)
    then have "w \<in> set ready" unfolding wt by (rule nth_mod_mem)
    then show ?thesis
      unfolding wt ready_def by (auto split: option.splits if_splits)
  qed
  show "omin (map_option fst c) (omin tm dn) = Some t" if "dn \<noteq> Some now"
    using assms that by (auto simp: select_def Let_def split: option.splits)
qed

lemma select_RecvCh: "select rnd now c tm dn = Some (RecvCh v, t) \<Longrightarrow> c = Some (t, v)"
  by (drule select_Some(1)) auto

lemma select_RecvTimeout: "select rnd now c tm dn = Some (RecvTimeout, t) \<Longrightarrow> tm = Some t"
  by (drule select_Some(1)) auto

lemma select_RecvDone: "select rnd now c tm dn = Some (RecvDone, t) \<Longrightarrow> dn = Some t"
  by (drule select_Some(1)) auto

text \<open>A source that is alone at the earliest instant is the one selected.\<close>

lemma select_only_ch:
  "\<lbrakk>c = Some (t, v); tm = None \<or> (\<exists>a. tm = Some a \<and> t < a);
    dn = None \<or> (\<exists>b. dn = Some b \<and> t < b \<and> now < b)\<rbrakk>
   \<Longrightarrow> select rnd now c tm dn = Some (RecvCh v, t)"
  by (auto simp: select_def)

lemma select_only_timeout:
  "\<lbrakk>tm = Some t; c = None \<or> (\<exists>a v. c = Some (a, v) \<and> t < a);
    dn = None \<or> (\<exists>b. dn = Some b \<and> t < b \<and> now < b)\<rbrakk>
   \<Longrightarrow> select rnd now c tm dn = Some (RecvTimeout, t)"
  by (auto simp: select_def)


text \<open>The same for the select of an iteration, in terms of the configuration.\<close>

lemma sel_None:
  "sel r rnd i now = None \<longleftrightarrow> fn r i = Hangs \<and> timeout r = 0 \<and> cancelContext r = None"
  by (auto simp: sel_def select_None completes_def GetTimeout_def Done_def
      split: call.splits option.splits)

lemma sel_RecvCh:
  "sel r rnd i now = Some (RecvCh v, t) \<Longrightarrow> \<exists>d. fn r i = Returns d v \<and> t = now + int d"
  by (auto simp: sel_def completes_def dest!: select_RecvCh split: call.splits)

lemma sel_RecvTimeout:
  "sel r rnd i now = Some (RecvTimeout, t) \<Longrightarrow> timeout r \<noteq> 0 \<and> t = now + max 0 (timeout r)"
  by (auto simp: sel_def GetTimeout_def dest!: select_RecvTimeout split: if_splits)

lemma sel_RecvDone:
  "sel r rnd i now = Some (RecvDone, t) \<Longrightarrow> \<exists>c. cancelContext r = Some c \<and> t = max now c"
  by (auto simp: sel_def Done_def dest!: select_RecvDone split: option.splits)

text \<open>No source was ready before the instant at which the select is resolved.\<close>

lemma sel_least:
  assumes "sel r rnd i now = Some (w, t)"
  shows "now \<le> t"
    and "fn r i = Returns d v \<Longrightarrow> t \<le> now + int d"
    and "timeout r \<noteq> 0 \<Longrightarrow> t \<le> now + max 0 (timeout r)"
    and "cancelContext r = Some c \<Longrightarrow> t \<le> max now c"
proof -
  let ?c = "completes (fn r i) now" and ?tm = "GetTimeout r now" and ?dn = "Done r now"
  from assms have s: "select (rnd i) now ?c ?tm ?dn = Some (w, t)" by (simp add: sel_def)
  have ge: "now \<le> t"
    using select_Some(1) [OF s]
    by (auto simp: completes_def GetTimeout_def Done_def split: call.splits option.splits if_splits)
  show "now \<le> t" by (rule ge)
  have low: "(\<forall>a. map_option fst ?c = Some a \<longrightarrow> t \<le> a) \<and> (\<forall>a. ?tm = Some a \<longrightarrow> t \<le> a)
      \<and> (\<forall>a. ?dn = Some a \<longrightarrow> t \<le> a)"
  proof (cases "?dn = Some now")
    case True
    with s have "t = now" by (simp add: select_def)
    then show ?thesis
      by (auto simp: completes_def GetTimeout_def Done_def split: call.splits option.splits if_splits)
  next
    case False
    from select_Some(2) [OF s False] have m: "omin (map_option fst ?c) (omin ?tm ?dn) = Some t" .
    from omin_Some_le [OF m] have 1: "\<forall>a. map_option fst ?c = Some a \<longrightarrow> t \<le> a"
      and "\<forall>b. omin ?tm ?dn = Some b \<longrightarrow> t \<le> b" by blast+
    then have "(\<forall>a. ?tm = Some a \<longrightarrow> t \<le> a) \<and> (\<forall>a. ?dn = Some a \<longrightarrow> t \<le> a)"
      by (cases ?tm; cases ?dn) (auto simp: min_def split: if_splits)
    with 1 show ?thesis by blast
  qed
  from low show "fn r i = Returns d v \<Longrightarrow> t \<le> now + int d"
    by (simp add: completes_def)
  from low show "timeout r \<noteq> 0 \<Longrightarrow> t \<le> now + max 0 (timeout r)"
    by (simp add: GetTimeout_def)
  from low show "cancelContext r = Some c \<Longrightarrow> t \<le> max now c"
    by (simp add: Done_def)
qed

lemma sel_only_ch:
  assumes "fn r i = Returns d v"
    and "timeout r = 0 \<or> int d < timeout r"
    and "cancelContext r = None \<or> (\<exists>c. cancelContext r = Some c \<and> now + int d < c)"
  shows "sel r rnd i now = Some (RecvCh v, now + int d)"
  unfolding sel_def
  by (rule select_only_ch) (use assms in \<open>auto simp: completes_def GetTimeout_def Done_def\<close>)

lemma sel_only_timeout:
  assumes "0 < timeout r"
    and "fn r i = Hangs \<or> (\<exists>d v. fn r i = Returns d v \<and> timeout r < int d)"
    and "cancelContext r = None \<or> (\<exists>c. cancelContext r = Some c \<and> now + timeout r < c)"
  shows "sel r rnd i now = Some (RecvTimeout, now + timeout r)"
  unfolding sel_def
  by (rule select_only_timeout) (use assms in \<open>auto simp: completes_def GetTimeout_def Done_def\<close>)


section \<open>Unfolding the loop\<close>

lemma Exec_loop_stop:
  "\<not> int i < retries r \<Longrightarrow> Exec_loop r rnd i st now = \<lparr>returned = Some (st, now), attempts = []\<rparr>"
  by (simp add: Exec_loop.simps)

lemma Exec_loop_block:
  "\<lbrakk>int i < retries r; sel r rnd i now = None\<rbrakk> \<Longrightarrow>
   Exec_loop r rnd i st now =
     \<lparr>returned = None, attempts = [\<lparr>started = now, race = None, slept = 0, handoff = []\<rparr>]\<rparr>"
  by (simp add: Exec_loop.simps [of r rnd i] iteration_def sel_def)

lemma Exec_loop_nil:
  "\<lbrakk>int i < retries r; sel r rnd i now = Some (RecvCh None, t)\<rbrakk> \<Longrightarrow>
   Exec_loop r rnd i st now =
     \<lparr>returned = Some (bump st\<lparr>Err := None\<rparr>, t),
      attempts = [\<lparr>started = now, race = Some (RecvCh None, t), slept = 0,
                   handoff = [Send None, Recv]\<rparr>]\<rparr>"
  by (simp add: Exec_loop.simps [of r rnd i] iteration_def sel_def)

lemma Exec_loop_err:
  assumes "int i < retries r" and "sel r rnd i now = Some (RecvCh (Some e), t)"
  shows "returned (Exec_loop r rnd i st now) =
           returned (Exec_loop r rnd (Suc i) (bump st\<lparr>Err := Some e\<rparr>) (t + max 0 (sleep r)))"
    and "attempts (Exec_loop r rnd i st now) =
           \<lparr>started = now, race = Some (RecvCh (Some e), t), slept = max 0 (sleep r),
             handoff = [Send (Some e), Recv]\<rparr>
           # attempts (Exec_loop r rnd (Suc i) (bump st\<lparr>Err := Some e\<rparr>) (t + max 0 (sleep r)))"
  using assms by (simp_all add: Exec_loop.simps [of r rnd i] iteration_def sel_def Let_def)

lemma Exec_loop_timeout:
  assumes "int i < retries r" and "sel r rnd i now = Some (RecvTimeout, t)"
  shows "returned (Exec_loop r rnd i st now) =
           returned (Exec_loop r rnd (Suc i)
             (bump st\<lparr>Err := Some (errors_New TIMEOUT_ERROR), Timeout := Timeout st + 1\<rparr>) t)"
    and "attempts (Exec_loop r rnd i st now) =
           \<lparr>started = now, race = Some (RecvTimeout, t), slept = 0,
             handoff = sent_by (fn r i) now t @ sent_after (fn r i) now t\<rparr>
           # attempts (Exec_loop r rnd (Suc i)
               (bump st\<lparr>Err := Some (errors_New TIMEOUT_ERROR), Timeout := Timeout st + 1\<rparr>) t)"
  using assms by (simp_all add: Exec_loop.simps [of r rnd i] iteration_def sel_def Let_def)

lemma Exec_loop_done:
  "\<lbrakk>int i < retries r; sel r rnd i now = Some (RecvDone, t)\<rbrakk> \<Longrightarrow>
   Exec_loop r rnd i st now =
     \<lparr>returned = Some (bump st\<lparr>Err := Some (errors_New CANCEL_ERROR)\<rparr>, t),
      attempts = [\<lparr>started = now, race = Some (RecvDone, t), slept = 0,
                   handoff = closed_at (fn r i) now t\<rparr>]\<rparr>"
  by (simp add: Exec_loop.simps [of r rnd i] iteration_def sel_def Let_def)

text \<open>Case analysis on one iteration of the loop.\<close>

lemma sel_cases [case_names blocks nil err timer cancel]:
  obtains "sel r rnd i now = None"
  | t where "sel r rnd i now = Some (RecvCh None, t)"
  | e t where "sel r rnd i now = Some (RecvCh (Some e), t)"
  | t where "sel r rnd i now = Some (RecvTimeout, t)"
  | t where "sel r rnd i now = Some (RecvDone, t)"
proof (cases "sel r rnd i now")
  case None then show ?thesis using that by blast
next
  case (Some p)
  obtain w t where p: "p = (w, t)" by (cases p)
  show ?thesis
  proof (cases w)
    case (RecvCh v) then show ?thesis using Some p that by (cases v) auto
  next
    case RecvTimeout then show ?thesis using Some p that by auto
  next
    case RecvDone then show ?thesis using Some p that by auto
  qed
qed

section \<open>The trace of a run\<close>

text \<open>
  Attempt \<open>j\<close> of a loop entered at iteration \<open>i\<close> is iteration \<open>i + j\<close>: its race is
  the select over the three sources taken at the instant it started.
\<close>

lemma attempt_race:
  "j < length (attempts (Exec_loop r rnd i st now)) \<Longrightarrow>
   int (i + j) < retries r
   \<and> race (attempts (Exec_loop r rnd i st now) ! j)
       = sel r rnd (i + j) (started (attempts (Exec_loop r rnd i st now) ! j))
   \<and> slept (attempts (Exec_loop r rnd i st now) ! j)
       = (case race (attempts (Exec_loop r rnd i st now) ! j) of
            Some (w, t) \<Rightarrow> pause r w | None \<Rightarrow> 0)"
proof (induction "nat (retries r - int i)" arbitrary: i st now j)
  case 0
  then have "\<not> int i < retries r" by simp
  with "0.prems" show ?case by (simp add: Exec_loop_stop)
next
  case (Suc m)
  then have lt: "int i < retries r" by linarith
  have m: "m = nat (retries r - int (Suc i))" using Suc.hyps(2) by simp
  show ?case
  proof (cases rule: sel_cases [of r rnd i now])
    case blocks
    with Suc.prems lt show ?thesis by (simp add: Exec_loop_block)
  next
    case (nil t)
    with Suc.prems lt show ?thesis by (simp add: Exec_loop_nil pause_def)
  next
    case (err e t)
    note unf = Exec_loop_err [OF lt err, of st]
    show ?thesis
    proof (cases j)
      case 0
      with lt err show ?thesis by (simp add: unf pause_def)
    next
      case (Suc j')
      with Suc.prems have "j' < length (attempts (Exec_loop r rnd (Suc i)
          (bump st\<lparr>Err := Some e\<rparr>) (t + max 0 (sleep r))))"
        by (simp add: unf)
      from Suc.hyps(1) [OF m this] show ?thesis
        using Suc by (simp add: unf)
    qed
  next
    case (timer t)
    note unf = Exec_loop_timeout [OF lt timer, of st]
    show ?thesis
    proof (cases j)
      case 0
      with lt timer show ?thesis by (simp add: unf pause_def)
    next
      case (Suc j')
      with Suc.prems have "j' < length (attempts (Exec_loop r rnd (Suc i)
          (bump st\<lparr>Err := Some (errors_New TIMEOUT_ERROR), Timeout := Timeout st + 1\<rparr>) t))"
        by (simp add: unf)
      from Suc.hyps(1) [OF m this] show ?thesis
        using Suc by (simp add: unf)
    qed
  next
    case (cancel t)
    with Suc.prems lt show ?thesis by (simp add: Exec_loop_done pause_def)
  qed
qed

lemma attempt_first:
  "attempts (Exec_loop r rnd i st now) \<noteq> [] \<Longrightarrow>
   started (attempts (Exec_loop r rnd i st now) ! 0) = now"
proof (cases "int i < retries r")
  case False
  assume "attempts (Exec_loop r rnd i st now) \<noteq> []"
  with False show ?thesis by (simp add: Exec_loop_stop)
next
  case lt: True
  show ?thesis
  proof (cases rule: sel_cases [of r rnd i now])
    case blocks then show ?thesis using lt by (simp add: Exec_loop_block)
  next
    case (nil t) then show ?thesis using lt by (simp add: Exec_loop_nil)
  next
    case (err e t) then show ?thesis using lt by (simp add: Exec_loop_err)
  next
    case (timer t) then show ?thesis using lt by (simp add: Exec_loop_timeout)
  next
    case (cancel t) then show ?thesis using lt by (simp add: Exec_loop_done)
  qed
qed

lemma attempt_chain:
  "Suc j < length (attempts (Exec_loop r rnd i st now)) \<Longrightarrow>
   \<exists>w t. race (attempts (Exec_loop r rnd i st now) ! j) = Some (w, t)
     \<and> (w = RecvTimeout \<or> (\<exists>e. w = RecvCh (Some e)))
     \<and> started (attempts (Exec_loop r rnd i st now) ! Suc j)
         = t + slept (attempts (Exec_loop r rnd i st now) ! j)"
proof (induction "nat (retries r - int i)" arbitrary: i st now j)
  case 0
  then have "\<not> int i < retries r" by simp
  with "0.prems" show ?case by (simp add: Exec_loop_stop)
next
  case (Suc m)
  then have lt: "int i < retries r" by linarith
  have m: "m = nat (retries r - int (Suc i))" using Suc.hyps(2) by simp
  show ?case
  proof (cases rule: sel_cases [of r rnd i now])
    case blocks
    with Suc.prems lt show ?thesis by (simp add: Exec_loop_block)
  next
    case (nil t)
    with Suc.prems lt show ?thesis by (simp add: Exec_loop_nil)
  next
    case (err e t)
    note unf = Exec_loop_err [OF lt err, of st]
    let ?rest = "Exec_loop r rnd (Suc i) (bump st\<lparr>Err := Some e\<rparr>) (t + max 0 (sleep r))"
    show ?thesis
    proof (cases j)
      case 0
      with Suc.prems have "attempts ?rest \<noteq> []" by (auto simp: unf)
      from attempt_first [OF this] 0 show ?thesis by (simp add: unf)
    next
      case (Suc j')
      with Suc.prems have "Suc j' < length (attempts ?rest)" by (simp add: unf)
      from Suc.hyps(1) [OF m this] show ?thesis using Suc by (simp add: unf)
    qed
  next
    case (timer t)
    note unf = Exec_loop_timeout [OF lt timer, of st]
    let ?rest = "Exec_loop r rnd (Suc i)
          (bump st\<lparr>Err := Some (errors_New TIMEOUT_ERROR), Timeout := Timeout st + 1\<rparr>) t"
    show ?thesis
    proof (cases j)
      case 0
      with Suc.prems have "attempts ?rest \<noteq> []" by (auto simp: unf)
      from attempt_first [OF this] 0 show ?thesis by (simp add: unf)
    next
      case (Suc j')
      with Suc.prems have "Suc j' < length (attempts ?rest)" by (simp add: unf)
      from Suc.hyps(1) [OF m this] show ?thesis using Suc by (simp add: unf)
    qed
  next
    case (cancel t)
    with Suc.prems lt show ?thesis by (simp add: Exec_loop_done)
  qed
qed

text \<open>How the loop ends, read off its last attempt.\<close>

lemma reported_simps [simp]:
  "reported (RecvCh v) = v"
  "reported RecvTimeout = Some (errors_New TIMEOUT_ERROR)"
  "reported RecvDone = Some (errors_New CANCEL_ERROR)"
  by (simp_all add: reported_def)

lemma loop_blocked:
  "returned (Exec_loop r rnd i st now) = None \<Longrightarrow>
   attempts (Exec_loop r rnd i st now) \<noteq> []
   \<and> race (last (attempts (Exec_loop r rnd i st now))) = None"
proof (induction "nat (retries r - int i)" arbitrary: i st now)
  case 0
  then have "\<not> int i < retries r" by simp
  with "0.prems" show ?case by (simp add: Exec_loop_stop)
next
  case (Suc m)
  then have lt: "int i < retries r" by linarith
  have m: "m = nat (retries r - int (Suc i))" using Suc.hyps(2) by simp
  show ?case
  proof (cases rule: sel_cases [of r rnd i now])
    case blocks
    with lt show ?thesis by (simp add: Exec_loop_block)
  next
    case (nil t)
    with Suc.prems lt show ?thesis by (simp add: Exec_loop_nil)
  next
    case (err e t)
    note unf = Exec_loop_err [OF lt err, of st]
    from Suc.prems have "returned (Exec_loop r rnd (Suc i) (bump st\<lparr>Err := Some e\<rparr>)
        (t + max 0 (sleep r))) = None"
      by (simp add: unf)
    from Suc.hyps(1) [OF m this] show ?thesis by (simp add: unf)
  next
    case (timer t)
    note unf = Exec_loop_timeout [OF lt timer, of st]
    from Suc.prems have "returned (Exec_loop r rnd (Suc i)
        (bump st\<lparr>Err := Some (errors_New TIMEOUT_ERROR), Timeout := Timeout st + 1\<rparr>) t) = None"
      by (simp add: unf)
    from Suc.hyps(1) [OF m this] show ?thesis by (simp add: unf)
  next
    case (cancel t)
    with Suc.prems lt show ?thesis by (simp add: Exec_loop_done)
  qed
qed

lemma loop_returned:
  "returned (Exec_loop r rnd i st now) = Some (st', t') \<Longrightarrow>
   Retries st' = Retries st + int (length (attempts (Exec_loop r rnd i st now)))
   \<and> Timeout st' = Timeout st
        + int (length (filter (\<lambda>a. winner a = Some RecvTimeout)
                 (attempts (Exec_loop r rnd i st now))))
   \<and> (if attempts (Exec_loop r rnd i st now) = [] then Err st' = Err st \<and> t' = now
       else \<exists>w t. race (last (attempts (Exec_loop r rnd i st now))) = Some (w, t)
              \<and> Err st' = reported w
              \<and> t' = t + slept (last (attempts (Exec_loop r rnd i st now))))"
proof (induction "nat (retries r - int i)" arbitrary: i st now)
  case 0
  then have "\<not> int i < retries r" by simp
  with "0.prems" show ?case by (auto simp: Exec_loop_stop)
next
  case (Suc m)
  then have lt: "int i < retries r" by linarith
  have m: "m = nat (retries r - int (Suc i))" using Suc.hyps(2) by simp
  show ?case
  proof (cases rule: sel_cases [of r rnd i now])
    case blocks
    with Suc.prems lt show ?thesis by (simp add: Exec_loop_block)
  next
    case (nil t)
    with Suc.prems lt show ?thesis by (auto simp: Exec_loop_nil winner_def)
  next
    case (err e t)
    note unf = Exec_loop_err [OF lt err, of st]
    let ?st = "bump st\<lparr>Err := Some e\<rparr>"
    let ?rest = "Exec_loop r rnd (Suc i) ?st (t + max 0 (sleep r))"
    from Suc.prems have "returned ?rest = Some (st', t')" by (simp add: unf)
    from Suc.hyps(1) [OF m this] show ?thesis
      by (auto simp: unf winner_def)
  next
    case (timer t)
    note unf = Exec_loop_timeout [OF lt timer, of st]
    let ?st = "bump st\<lparr>Err := Some (errors_New TIMEOUT_ERROR), Timeout := Timeout st + 1\<rparr>"
    let ?rest = "Exec_loop r rnd (Suc i) ?st t"
    from Suc.prems have "returned ?rest = Some (st', t')" by (simp add: unf)
    from Suc.hyps(1) [OF m this] show ?thesis
      by (auto simp: unf winner_def)
  next
    case (cancel t)
    with Suc.prems lt show ?thesis by (auto simp: Exec_loop_done winner_def)
  qed
qed

text \<open>The operations made on the channel of an attempt.\<close>

lemma attempt_handoff:
  "j < length (attempts (Exec_loop r rnd i st now)) \<Longrightarrow>
   handoff (attempts (Exec_loop r rnd i st now) ! j)
     = (case race (attempts (Exec_loop r rnd i st now) ! j) of
          None \<Rightarrow> []
        | Some (RecvCh v, t) \<Rightarrow> [Send v, Recv]
        | Some (RecvTimeout, t) \<Rightarrow>
            sent_by (fn r (i + j)) (started (attempts (Exec_loop r rnd i st now) ! j)) t
            @ sent_after (fn r (i + j)) (started (attempts (Exec_loop r rnd i st now) ! j)) t
        | Some (RecvDone, t) \<Rightarrow>
            closed_at (fn r (i + j)) (started (attempts (Exec_loop r rnd i st now) ! j)) t)"
proof (induction "nat (retries r - int i)" arbitrary: i st now j)
  case 0
  then have "\<not> int i < retries r" by simp
  with "0.prems" show ?case by (simp add: Exec_loop_stop)
next
  case (Suc m)
  then have lt: "int i < retries r" by linarith
  have m: "m = nat (retries r - int (Suc i))" using Suc.hyps(2) by simp
  show ?case
  proof (cases rule: sel_cases [of r rnd i now])
    case blocks
    with Suc.prems lt show ?thesis by (simp add: Exec_loop_block)
  next
    case (nil t)
    with Suc.prems lt show ?thesis by (simp add: Exec_loop_nil)
  next
    case (err e t)
    note unf = Exec_loop_err [OF lt err, of st]
    let ?st = "bump st\<lparr>Err := Some e\<rparr>" and ?now = "t + max 0 (sleep r)"
    show ?thesis
    proof (cases j)
      case 0
      then show ?thesis by (simp add: unf)
    next
      case (Suc j')
      with Suc.prems have "j' < length (attempts (Exec_loop r rnd (Suc i)
          (bump st\<lparr>Err := Some e\<rparr>) (t + max 0 (sleep r))))"
        by (simp add: unf)
      from Suc.hyps(1) [OF m this, unfolded add_Suc_shift] show ?thesis
        unfolding Suc unf nth_Cons_Suc .
    qed
  next
    case (timer t)
    note unf = Exec_loop_timeout [OF lt timer, of st]
    let ?st = "bump st\<lparr>Err := Some (errors_New TIMEOUT_ERROR), Timeout := Timeout st + 1\<rparr>"
      and ?now = t
    show ?thesis
    proof (cases j)
      case 0
      then show ?thesis by (simp add: unf)
    next
      case (Suc j')
      with Suc.prems have "j' < length (attempts (Exec_loop r rnd (Suc i)
          (bump st\<lparr>Err := Some (errors_New TIMEOUT_ERROR), Timeout := Timeout st + 1\<rparr>) t))"
        by (simp add: unf)
      from Suc.hyps(1) [OF m this, unfolded add_Suc_shift] show ?thesis
        unfolding Suc unf nth_Cons_Suc .
    qed
  next
    case (cancel t)
    with Suc.prems lt show ?thesis by (simp add: Exec_loop_done)
  qed
qed

lemma last_is_nth: "length xs = Suc j \<Longrightarrow> xs \<noteq> [] \<and> last xs = xs ! j"
  by (cases xs rule: rev_cases) (auto simp: nth_append)

lemma no_timeout_attempts:
  assumes "timeout r = 0" and "a \<in> set (attempts (Exec_loop r rnd i st now))"
  shows "winner a \<noteq> Some RecvTimeout"
proof
  assume w: "winner a = Some RecvTimeout"
  from assms(2) obtain j where j: "j < length (attempts (Exec_loop r rnd i st now))"
    and a: "a = attempts (Exec_loop r rnd i st now) ! j"
    by (auto simp: in_set_conv_nth)
  from w obtain t where "race a = Some (RecvTimeout, t)" by (auto simp: winner_def)
  with attempt_race [OF j] a have "sel r rnd (i + j) (started a) = Some (RecvTimeout, t)"
    by simp
  from sel_RecvTimeout [OF this] assms(1) show False by simp
qed

lemma attempts_empty_iff:
  "attempts (Exec_loop r rnd i st now) = [] \<longleftrightarrow> \<not> int i < retries r"
proof (cases "int i < retries r")
  case False
  then show ?thesis by (simp add: Exec_loop_stop)
next
  case lt: True
  show ?thesis
  proof (cases rule: sel_cases [of r rnd i now])
    case blocks then show ?thesis using lt by (simp add: Exec_loop_block)
  next
    case (nil t) then show ?thesis using lt by (simp add: Exec_loop_nil)
  next
    case (err e t) then show ?thesis using lt by (simp add: Exec_loop_err)
  next
    case (timer t) then show ?thesis using lt by (simp add: Exec_loop_timeout)
  next
    case (cancel t) then show ?thesis using lt by (simp add: Exec_loop_done)
  qed
qed

text \<open>After a failure or a timeout the loop goes on, as long as \<open>retries\<close> allows.\<close>

lemma attempt_next:
  "j < length (attempts (Exec_loop r rnd i st now)) \<Longrightarrow>
   race (attempts (Exec_loop r rnd i st now) ! j) = Some (w, t) \<Longrightarrow>
   w = RecvTimeout \<or> (\<exists>e. w = RecvCh (Some e)) \<Longrightarrow>
   int (i + Suc j) < retries r \<Longrightarrow>
   Suc j < length (attempts (Exec_loop r rnd i st now))"
proof (induction "nat (retries r - int i)" arbitrary: i st now j)
  case 0
  then have "\<not> int i < retries r" by simp
  with "0.prems" show ?case by (simp add: Exec_loop_stop)
next
  case (Suc m)
  then have lt: "int i < retries r" by linarith
  have m: "m = nat (retries r - int (Suc i))" using Suc.hyps(2) by simp
  show ?case
  proof (cases rule: sel_cases [of r rnd i now])
    case blocks
    with Suc.prems lt show ?thesis by (simp add: Exec_loop_block)
  next
    case (nil t')
    with Suc.prems lt show ?thesis by (auto simp: Exec_loop_nil)
  next
    case (err e t')
    note unf = Exec_loop_err [OF lt err, of st]
    let ?rest = "Exec_loop r rnd (Suc i) (bump st\<lparr>Err := Some e\<rparr>) (t' + max 0 (sleep r))"
    show ?thesis
    proof (cases j)
      case 0
      with Suc.prems(4) have "int (Suc i) < retries r" by simp
      then have "attempts ?rest \<noteq> []" by (simp add: attempts_empty_iff)
      with 0 show ?thesis by (simp add: unf)
    next
      case (Suc j')
      with Suc.prems have "j' < length (attempts ?rest)" "race (attempts ?rest ! j') = Some (w, t)"
        "int (Suc i + Suc j') < retries r"
        by (simp_all add: unf)
      from Suc.hyps(1) [OF m this(1,2) Suc.prems(3) this(3)] show ?thesis
        using Suc by (simp add: unf)
    qed
  next
    case (timer t')
    note unf = Exec_loop_timeout [OF lt timer, of st]
    let ?rest = "Exec_loop r rnd (Suc i)
      (bump st\<lparr>Err := Some (errors_New TIMEOUT_ERROR), Timeout := Timeout st + 1\<rparr>) t'"
    show ?thesis
    proof (cases j)
      case 0
      with Suc.prems(4) have "int (Suc i) < retries r" by simp
      then have "attempts ?rest \<noteq> []" by (simp add: attempts_empty_iff)
      with 0 show ?thesis by (simp add: unf)
    next
      case (Suc j')
      with Suc.prems have "j' < length (attempts ?rest)" "race (attempts ?rest ! j') = Some (w, t)"
        "int (Suc i + Suc j') < retries r"
        by (simp_all add: unf)
      from Suc.hyps(1) [OF m this(1,2) Suc.prems(3) this(3)] show ?thesis
        using Suc by (simp add: unf)
    qed
  next
    case (cancel t')
    with Suc.prems lt show ?thesis by (auto simp: Exec_loop_done)
  qed
qed



text \<open>The values of the scenarios.\<close>

lemma failing_fields:
  "retries failing_cfg = 3" "fn failing_cfg i = Returns 5 (Some boom)"
  by (simp_all add: failing_cfg_def SetSleep_def SetRetries_def Retry_def)

lemma failing_run:
  "Exec failing_cfg (\<lambda>_. 0) 0 =
     \<lparr>returned = Some (\<lparr>Err = Some boom, Retries = 2, Timeout = 0\<rparr>, 21),
      attempts =
        [\<lparr>started = 0, race = Some (RecvCh (Some boom), 5), slept = 2,
           handoff = [Send (Some boom), Recv]\<rparr>,
         \<lparr>started = 7, race = Some (RecvCh (Some boom), 12), slept = 2,
           handoff = [Send (Some boom), Recv]\<rparr>,
         \<lparr>started = 14, race = Some (RecvCh (Some boom), 19), slept = 2,
           handoff = [Send (Some boom), Recv]\<rparr>]\<rparr>"
  by code_simp

lemma stalling_fields:
  "retries stalling_cfg = 2" "timeout stalling_cfg = 10" "cancelContext stalling_cfg = None"
  "fn stalling_cfg i = Returns 50 None"
  by (simp_all add: stalling_cfg_def SetSleep_def SetTimeout_def SetRetries_def Retry_def)


lemma flaky_run:
  "Exec flaky_cfg (\<lambda>_. 0) 0 =
     \<lparr>returned = Some (\<lparr>Err = None, Retries = 2, Timeout = 1\<rparr>, 19),
      attempts =
        [\<lparr>started = 0, race = Some (RecvCh (Some boom), 2), slept = 3,
           handoff = [Send (Some boom), Recv]\<rparr>,
         \<lparr>started = 5, race = Some (RecvTimeout, 15), slept = 0,
           handoff = [Send (Some boom)]\<rparr>,
         \<lparr>started = 15, race = Some (RecvCh None, 19), slept = 0,
           handoff = [Send None, Recv]\<rparr>]\<rparr>"
  by code_simp

lemma cancelled_fields:
  "retries cancelled_cfg = 3" "timeout cancelled_cfg = 0" "cancelContext cancelled_cfg = Some 20"
  "fn cancelled_cfg 0 = Returns 5 (Some boom)" "fn cancelled_cfg 1 = Hangs"
  by (simp_all add: cancelled_cfg_def Cancel_def SetSleep_def SetRetries_def Retry_def)

lemma cancelled_run:
  "Exec cancelled_cfg (\<lambda>_. 0) 0 =
     \<lparr>returned = Some (\<lparr>Err = Some (errors_New CANCEL_ERROR), Retries = 1, Timeout = 0\<rparr>, 20),
      attempts =
        [\<lparr>started = 0, race = Some (RecvCh (Some boom), 5), slept = 3,
           handoff = [Send (Some boom), Recv]\<rparr>,
         \<lparr>started = 8, race = Some (RecvDone, 20), slept = 0, handoff = [Close]\<rparr>]\<rparr>"
  by code_simp




section \<open>Properties of Exec\<close>

subsection \<open>C1: a late write to the handoff channel\<close>

text \<open>
  The timeout case leaves the channel open: whenever the operation returns, before or
  after the timer, its send goes into the buffer.
\<close>

lemma timeout_handoff_safe:
  assumes "j < length (attempts (Exec r rnd now))"
    and "winner (attempts (Exec r rnd now) ! j) = Some RecvTimeout"
  shows "\<exists>ch. handoff_result (attempts (Exec r rnd now) ! j) = Inr ch \<and> \<not> closed ch"
proof -
  let ?R = "Exec_loop r rnd 0 \<lparr>Err = None, Retries = - 1, Timeout = 0\<rparr> now"
  from assms have j: "j < length (attempts ?R)"
    and "winner (attempts ?R ! j) = Some RecvTimeout"
    by (simp_all add: Exec_def)
  then obtain t where "race (attempts ?R ! j) = Some (RecvTimeout, t)"
    by (auto simp: winner_def)
  with attempt_handoff [OF j] show ?thesis
    unfolding Exec_def
    by (cases "fn r j")
      (auto simp: handoff_result_def sent_by_def sent_after_def completes_def make_chan_def)
qed

text \<open>
  The cancellation case closes it: an operation still in flight, that returns later,
  sends on a closed channel.
\<close>

lemma cancel_handoff_panics:
  assumes "j < length (attempts (Exec r rnd now))"
    and "race (attempts (Exec r rnd now) ! j) = Some (RecvDone, t)"
    and "fn r j = Returns d v"
    and "t < started (attempts (Exec r rnd now) ! j) + int d"
  shows "handoff_result (attempts (Exec r rnd now) ! j) = Inl (Panic ''send on closed channel'')"
proof -
  let ?R = "Exec_loop r rnd 0 \<lparr>Err = None, Retries = - 1, Timeout = 0\<rparr> now"
  from assms(1) have j: "j < length (attempts ?R)" by (simp add: Exec_def)
  from attempt_handoff [OF j] assms(2-4) show ?thesis
    unfolding Exec_def
    by (simp add: handoff_result_def closed_at_def sent_by_def sent_after_def completes_def
        make_chan_def)
qed

text \<open>
  C1 says that the consumer never closes the handoff channel, so that a write made
  after the race was resolved by timeout or cancellation completes safely. That holds
  of the timeout case; the cancellation case of \<^verbatim>\<open>Exec\<close> does close \<^verbatim>\<open>ch\<close>. With an
  operation that takes 50 and a \<^verbatim>\<open>Cancel\<close> at 10, \<^verbatim>\<open>Exec\<close> returns the cancellation
  error at 10, the channel is closed, and the goroutine's send at 50 panics.
\<close>

theorem cancel_closes_handoff_before_late_send:
  "Exec (Cancel (Retry (\<lambda>_. Returns 50 None)) 10) (\<lambda>_. 0) 0 =
     \<lparr>returned = Some (\<lparr>Err = Some (errors_New CANCEL_ERROR), Retries = 0, Timeout = 0\<rparr>, 10),
      attempts = [\<lparr>started = 0, race = Some (RecvDone, 10), slept = 0,
                   handoff = [Close, Send None]\<rparr>]\<rparr>
   \<and> map handoff_result (attempts (Exec (Cancel (Retry (\<lambda>_. Returns 50 None)) 10) (\<lambda>_. 0) 0)) =
     [Inl (Panic ''send on closed channel'')]"
  by code_simp

subsection \<open>C2: an operation that always fails\<close>




subsection \<open>C3: an operation that always times out\<close>

lemma all_timeouts_loop:
  assumes pos: "0 < timeout r"
    and slow: "\<forall>j. int j < retries r \<longrightarrow>
                 fn r j = Hangs \<or> (\<exists>d v. fn r j = Returns d v \<and> timeout r < int d)"
  shows "cancelContext r = None \<or>
           (\<exists>c. cancelContext r = Some c \<and> now + (retries r - int i) * timeout r < c) \<Longrightarrow>
         int i < retries r \<Longrightarrow>
         \<exists>st'. returned (Exec_loop r rnd i st now) = Some (st', now + (retries r - int i) * timeout r)
           \<and> Err st' = Some (errors_New TIMEOUT_ERROR)
           \<and> Retries st' = Retries st + (retries r - int i)
           \<and> Timeout st' = Timeout st + (retries r - int i)
           \<and> length (attempts (Exec_loop r rnd i st now)) = nat (retries r - int i)
           \<and> (\<forall>a \<in> set (attempts (Exec_loop r rnd i st now)).
                 winner a = Some RecvTimeout \<and> slept a = 0)"
proof (induction "nat (retries r - int i)" arbitrary: i st now)
  case 0
  then show ?case by simp
next
  case (Suc m)
  note lt = \<open>int i < retries r\<close>
  let ?t = "timeout r"
  have split: "(retries r - int i) * ?t = ?t + (retries r - int (Suc i)) * ?t"
    by (simp add: algebra_simps)
  have "0 \<le> (retries r - int (Suc i)) * ?t"
    using lt pos by simp
  with split have le: "now + ?t \<le> now + (retries r - int i) * ?t" by linarith
  from Suc.prems(1) le
  have quiet: "cancelContext r = None \<or> (\<exists>c. cancelContext r = Some c \<and> now + ?t < c)"
    by auto
  from slow lt have "fn r i = Hangs \<or> (\<exists>d v. fn r i = Returns d v \<and> ?t < int d)" by blast
  from sel_only_timeout [OF pos this quiet]
  have fired: "sel r rnd i now = Some (RecvTimeout, now + ?t)" .
  let ?st = "bump st\<lparr>Err := Some (errors_New TIMEOUT_ERROR), Timeout := Timeout st + 1\<rparr>"
  note unf = Exec_loop_timeout [OF lt fired, of st]
  show ?case
  proof (cases "int (Suc i) < retries r")
    case False
    with lt have last: "retries r - int i = 1" by linarith
    from False have "Exec_loop r rnd (Suc i) ?st (now + ?t) =
        \<lparr>returned = Some (?st, now + ?t), attempts = []\<rparr>"
      by (rule Exec_loop_stop)
    then show ?thesis
      by (simp add: unf last winner_def)
  next
    case True
    have m: "m = nat (retries r - int (Suc i))" using Suc.hyps(2) by simp
    from Suc.prems(1)
    have quiet': "cancelContext r = None \<or>
        (\<exists>c. cancelContext r = Some c \<and> (now + ?t) + (retries r - int (Suc i)) * ?t < c)"
      unfolding split by (simp add: add.assoc)
    from Suc.hyps(1) [OF m quiet' True, of ?st] obtain st' where
      IH: "returned (Exec_loop r rnd (Suc i) ?st (now + ?t)) =
             Some (st', (now + ?t) + (retries r - int (Suc i)) * ?t)"
          "Err st' = Some (errors_New TIMEOUT_ERROR)"
          "Retries st' = Retries ?st + (retries r - int (Suc i))"
          "Timeout st' = Timeout ?st + (retries r - int (Suc i))"
          "length (attempts (Exec_loop r rnd (Suc i) ?st (now + ?t))) = nat (retries r - int (Suc i))"
          "\<forall>a \<in> set (attempts (Exec_loop r rnd (Suc i) ?st (now + ?t))).
                 winner a = Some RecvTimeout \<and> slept a = 0"
      by blast
    have len: "Suc (nat (retries r - int (Suc i))) = nat (retries r - int i)"
      using lt by linarith
    show ?thesis
      using IH len unfolding unf split
      by (simp add: winner_def add.assoc)
  qed
qed

text \<open>
  C3 as stated speaks of every \<open>retries = n\<close>. With \<open>n = 0\<close> the loop body never runs
  and \<open>Err\<close> stays nil, which is not a timeout error.
\<close>

theorem Exec_times_out_zero_retries_counterexample:
  "retries (SetTimeout (SetRetries (Retry (\<lambda>_. Hangs)) 0) 10) = 0
   \<and> timeout (SetTimeout (SetRetries (Retry (\<lambda>_. Hangs)) 0) 10) = 10
   \<and> returned (Exec (SetTimeout (SetRetries (Retry (\<lambda>_. Hangs)) 0) 10) (\<lambda>_. 0) 0) =
       Some (\<lparr>Err = None, Retries = - 1, Timeout = 0\<rparr>, 0)
   \<and> None \<noteq> Some (errors_New TIMEOUT_ERROR)"
  by (simp add: Exec_def Exec_loop_stop SetTimeout_def SetRetries_def Retry_def)

text \<open>
  C3, amended: with \<open>retries = n \<ge> 1\<close>, a timeout \<open>t > 0\<close>, an operation whose every
  call takes longer than \<open>t\<close> (or never returns), and no cancellation up to instant
  \<open>now + n * t\<close>, \<^verbatim>\<open>Exec\<close> returns \<open>Timeout = n\<close>, the timeout error and
  \<open>Retries = n - 1\<close>. Every attempt is resolved by the timer and followed by no sleep:
  the run returns at \<open>now + n * t\<close> whatever \<open>sleep\<close> is.
\<close>

theorem Exec_always_times_out:
  assumes "1 \<le> retries r" and "0 < timeout r"
    and "\<forall>i. int i < retries r \<longrightarrow>
           fn r i = Hangs \<or> (\<exists>d v. fn r i = Returns d v \<and> timeout r < int d)"
    and "cancelContext r = None \<or>
           (\<exists>c. cancelContext r = Some c \<and> now + retries r * timeout r < c)"
  shows "returned (Exec r rnd now) =
           Some (\<lparr>Err = Some (errors_New TIMEOUT_ERROR), Retries = retries r - 1,
                   Timeout = retries r\<rparr>, now + retries r * timeout r)
         \<and> length (attempts (Exec r rnd now)) = nat (retries r)
         \<and> (\<forall>a \<in> set (attempts (Exec r rnd now)). winner a = Some RecvTimeout \<and> slept a = 0)"
proof -
  let ?st = "\<lparr>Err = None, Retries = - 1, Timeout = 0\<rparr>"
  from assms(1) have lt: "int 0 < retries r" by simp
  from assms(4) have quiet: "cancelContext r = None \<or>
      (\<exists>c. cancelContext r = Some c \<and> now + (retries r - int 0) * timeout r < c)"
    by simp
  from all_timeouts_loop [OF assms(2,3) quiet lt, of rnd ?st] obtain st' where
    st': "returned (Exec r rnd now) = Some (st', now + retries r * timeout r)"
      "Err st' = Some (errors_New TIMEOUT_ERROR)"
      "Retries st' = retries r - 1" "Timeout st' = retries r"
      "length (attempts (Exec r rnd now)) = nat (retries r)"
      "\<forall>a \<in> set (attempts (Exec r rnd now)). winner a = Some RecvTimeout \<and> slept a = 0"
    unfolding Exec_def by auto
  from st'(2-4) have "st' = \<lparr>Err = Some (errors_New TIMEOUT_ERROR), Retries = retries r - 1,
                   Timeout = retries r\<rparr>"
    by (cases st') simp
  with st'(1,5,6) show ?thesis by simp
qed

theorem Exec_always_times_out_witness:
  "retries stalling_cfg = 2 \<and> timeout stalling_cfg = 10 \<and> sleep stalling_cfg = 7
   \<and> returned (Exec stalling_cfg (\<lambda>_. 0) 0) =
       Some (\<lparr>Err = Some (errors_New TIMEOUT_ERROR), Retries = 1, Timeout = 2\<rparr>, 20)
   \<and> length (attempts (Exec stalling_cfg (\<lambda>_. 0) 0)) = 2"
proof -
  note f = stalling_fields
  have s: "sleep stalling_cfg = 7"
    by (simp add: stalling_cfg_def SetSleep_def)
  have h1: "1 \<le> retries stalling_cfg" and h2: "0 < timeout stalling_cfg"
    by (simp_all add: f)
  have h3: "\<forall>i. int i < retries stalling_cfg \<longrightarrow>
           fn stalling_cfg i = Hangs
           \<or> (\<exists>d v. fn stalling_cfg i = Returns d v \<and> timeout stalling_cfg < int d)"
    by (simp add: f)
  have h4: "cancelContext stalling_cfg = None \<or>
           (\<exists>c. cancelContext stalling_cfg = Some c
              \<and> 0 + retries stalling_cfg * timeout stalling_cfg < c)"
    by (simp add: f)
  note th = Exec_always_times_out [OF h1 h2 h3 h4, of "\<lambda>_. 0", unfolded f]
  from th have "returned (Exec stalling_cfg (\<lambda>_. 0) 0) =
       Some (\<lparr>Err = Some (errors_New TIMEOUT_ERROR), Retries = 1, Timeout = 2\<rparr>, 20)"
    and "length (attempts (Exec stalling_cfg (\<lambda>_. 0) 0)) = 2"
    by simp_all
  with f s show ?thesis by blast
qed

subsection \<open>C4: success on the k-th call\<close>




subsection \<open>C5: cancellation\<close>






subsection \<open>C6: the scope of the cancellation signal\<close>




subsection \<open>C7: timeout 0 means no timeout\<close>

text \<open>
  C7: with \<open>timeout = 0\<close> the timer source is never ready, no attempt is resolved by
  it, a run that returns has \<open>Timeout = 0\<close> and an \<open>Err\<close> that is nil, the cancellation
  error or an error the operation returned; and a first call that returns nil after
  any duration \<open>d\<close>, not cancelled meanwhile, makes the run return nil at
  \<open>now + d\<close>.
\<close>

theorem zero_timeout_never_fires:
  assumes "timeout r = 0"
  shows "GetTimeout r now = None
     \<and> (\<forall>a \<in> set (attempts (Exec r rnd now)). winner a \<noteq> Some RecvTimeout)
     \<and> (\<forall>st t. returned (Exec r rnd now) = Some (st, t) \<longrightarrow>
          Timeout st = 0
          \<and> (Err st = None \<or> Err st = Some (errors_New CANCEL_ERROR)
              \<or> (\<exists>i d. fn r i = Returns d (Err st))))
     \<and> (\<forall>d. 1 \<le> retries r \<and> fn r 0 = Returns d None
            \<and> (cancelContext r = None \<or> (\<exists>c. cancelContext r = Some c \<and> now + int d < c)) \<longrightarrow>
          returned (Exec r rnd now) = Some (\<lparr>Err = None, Retries = 0, Timeout = 0\<rparr>, now + int d))"
proof (intro conjI allI impI ballI)
  let ?st = "\<lparr>Err = None, Retries = - 1, Timeout = 0\<rparr>"
  let ?R = "Exec_loop r rnd 0 ?st now"
  show "GetTimeout r now = None" using assms by (simp add: GetTimeout_def)
  show "winner a \<noteq> Some RecvTimeout" if "a \<in> set (attempts (Exec r rnd now))" for a
    using no_timeout_attempts [OF assms] that unfolding Exec_def by blast
  then have none: "filter (\<lambda>a. winner a = Some RecvTimeout) (attempts ?R) = []"
    unfolding Exec_def by (simp add: filter_empty_conv)
  {
    fix st t assume ret: "returned (Exec r rnd now) = Some (st, t)"
    then have ret': "returned ?R = Some (st, t)" by (simp add: Exec_def)
    note out = loop_returned [OF ret']
    from out none show "Timeout st = 0" by simp
    show "Err st = None \<or> Err st = Some (errors_New CANCEL_ERROR)
              \<or> (\<exists>i d. fn r i = Returns d (Err st))"
    proof (cases "attempts ?R = []")
      case True
      with out show ?thesis by simp
    next
      case False
      with out obtain w t' where last: "race (last (attempts ?R)) = Some (w, t')"
        and err: "Err st = reported w" by auto
      from False have j: "length (attempts ?R) - 1 < length (attempts ?R)" by simp
      from False have nth: "last (attempts ?R) = attempts ?R ! (length (attempts ?R) - 1)"
        by (rule last_conv_nth)
      from attempt_race [OF j] last nth
      have sel: "sel r rnd (0 + (length (attempts ?R) - 1)) (started (last (attempts ?R)))
          = Some (w, t')"
        by simp
      show ?thesis
      proof (cases w)
        case (RecvCh v)
        with sel_RecvCh sel err show ?thesis by fastforce
      next
        case RecvTimeout
        with sel_RecvTimeout sel assms show ?thesis by fastforce
      next
        case RecvDone
        with err show ?thesis by simp
      qed
    qed
  }
  {
    fix d assume "1 \<le> retries r \<and> fn r 0 = Returns d None
            \<and> (cancelContext r = None \<or> (\<exists>c. cancelContext r = Some c \<and> now + int d < c))"
    then have lt: "int 0 < retries r" and call: "fn r 0 = Returns d None"
      and quiet: "cancelContext r = None \<or> (\<exists>c. cancelContext r = Some c \<and> now + int d < c)"
      by simp_all
    from assms have "timeout r = 0 \<or> int d < timeout r" by simp
    from sel_only_ch [OF call this quiet]
    have "sel r rnd 0 now = Some (RecvCh None, now + int d)" .
    from Exec_loop_nil [OF lt this]
    show "returned (Exec r rnd now) = Some (\<lparr>Err = None, Retries = 0, Timeout = 0\<rparr>, now + int d)"
      by (simp add: Exec_def)
  }
qed

theorem zero_timeout_never_fires_witness:
  "timeout slow_cfg = 0 \<and> retries slow_cfg = 1 \<and> fn slow_cfg 0 = Returns 1000000 None
   \<and> cancelContext slow_cfg = None
   \<and> GetTimeout slow_cfg 0 = None
   \<and> returned (Exec slow_cfg (\<lambda>_. 0) 0) =
       Some (\<lparr>Err = None, Retries = 0, Timeout = 0\<rparr>, 1000000)"
proof -
  have f: "timeout slow_cfg = 0" "retries slow_cfg = 1" "fn slow_cfg 0 = Returns 1000000 None"
    "cancelContext slow_cfg = None"
    by (simp_all add: slow_cfg_def Retry_def)
  note th = zero_timeout_never_fires [OF f(1), of 0 "\<lambda>_. 0"]
  from th have g: "GetTimeout slow_cfg 0 = None" by blast
  from th f have "returned (Exec slow_cfg (\<lambda>_. 0) 0) =
       Some (\<lparr>Err = None, Retries = 0, Timeout = 0\<rparr>, 0 + int 1000000)"
    by simp
  with f g show ?thesis by simp
qed

subsection \<open>C8: what Exec returns\<close>

text \<open>
  With no timeout and no cancellation, calls that fail followed by one that never
  returns leave the select of that attempt without a case.
\<close>

lemma hang_blocks_loop:
  assumes tm: "timeout r = 0" and nc: "cancelContext r = None"
    and hang: "fn r J = Hangs" and J: "int J < retries r"
  shows "i \<le> J \<Longrightarrow> (\<forall>k. i \<le> k \<and> k < J \<longrightarrow> (\<exists>d e. fn r k = Returns d (Some e))) \<Longrightarrow>
         returned (Exec_loop r rnd i st now) = None"
proof (induction "J - i" arbitrary: i st now)
  case 0
  then have i: "i = J" by simp
  from J i have lt: "int i < retries r" by simp
  from hang tm nc i have "sel r rnd i now = None" by (simp add: sel_None)
  from Exec_loop_block [OF lt this] show ?case by simp
next
  case (Suc n)
  then have iJ: "i < J" by simp
  with J have lt: "int i < retries r" by simp
  from Suc.prems(2) iJ obtain d e where call: "fn r i = Returns d (Some e)" by blast
  from tm have 1: "timeout r = 0 \<or> int d < timeout r" by simp
  from nc have 2: "cancelContext r = None \<or> (\<exists>c. cancelContext r = Some c \<and> now + int d < c)"
    by simp
  from sel_only_ch [OF call 1 2] have s: "sel r rnd i now = Some (RecvCh (Some e), now + int d)" .
  have n: "n = J - Suc i" using Suc.hyps(2) by simp
  have le: "Suc i \<le> J" using iJ by simp
  have rest: "\<forall>k. Suc i \<le> k \<and> k < J \<longrightarrow> (\<exists>d e. fn r k = Returns d (Some e))"
    using Suc.prems(2) by simp
  from Suc.hyps(1) [OF n le rest] show ?case
    by (simp add: Exec_loop_err(1) [OF lt s])
qed

lemma Exec_blocked_iff:
  "returned (Exec r rnd now) = None \<longleftrightarrow>
     timeout r = 0 \<and> cancelContext r = None
     \<and> (\<exists>j. int j < retries r \<and> fn r j = Hangs
            \<and> (\<forall>i < j. \<exists>d e. fn r i = Returns d (Some e)))"
proof
  let ?R = "Exec_loop r rnd 0 \<lparr>Err = None, Retries = - 1, Timeout = 0\<rparr> now"
  assume "returned (Exec r rnd now) = None"
  then have "returned ?R = None" by (simp add: Exec_def)
  from loop_blocked [OF this]
  have ne: "attempts ?R \<noteq> []" and last: "race (last (attempts ?R)) = None" by simp_all
  define j where "j = length (attempts ?R) - 1"
  from ne have j: "j < length (attempts ?R)" and len: "length (attempts ?R) = Suc j"
    by (simp_all add: j_def)
  from last_is_nth [OF len] last have none: "race (attempts ?R ! j) = None" by simp
  from attempt_race [OF j] none
  have lt: "int j < retries r" and "sel r rnd j (started (attempts ?R ! j)) = None"
    by simp_all
  then have hang: "fn r j = Hangs" and tm: "timeout r = 0" and nc: "cancelContext r = None"
    by (simp_all add: sel_None)
  have "\<exists>d e. fn r i = Returns d (Some e)" if "i < j" for i
  proof -
    from that j have i: "i < length (attempts ?R)" and si: "Suc i < length (attempts ?R)"
      by simp_all
    from attempt_chain [OF si] obtain w t where
      race: "race (attempts ?R ! i) = Some (w, t)"
      and w: "w = RecvTimeout \<or> (\<exists>e. w = RecvCh (Some e))"
      by blast
    from attempt_race [OF i] race
    have s: "sel r rnd i (started (attempts ?R ! i)) = Some (w, t)" by simp
    from w show ?thesis
    proof
      assume "w = RecvTimeout"
      with s sel_RecvTimeout tm show ?thesis by fastforce
    next
      assume "\<exists>e. w = RecvCh (Some e)"
      with s sel_RecvCh show ?thesis by fastforce
    qed
  qed
  with lt hang tm nc
  show "timeout r = 0 \<and> cancelContext r = None
     \<and> (\<exists>j. int j < retries r \<and> fn r j = Hangs
            \<and> (\<forall>i < j. \<exists>d e. fn r i = Returns d (Some e)))"
    by blast
next
  assume "timeout r = 0 \<and> cancelContext r = None
     \<and> (\<exists>j. int j < retries r \<and> fn r j = Hangs
            \<and> (\<forall>i < j. \<exists>d e. fn r i = Returns d (Some e)))"
  then obtain j where tm: "timeout r = 0" and nc: "cancelContext r = None"
    and J: "int j < retries r" and hang: "fn r j = Hangs"
    and fails: "\<forall>i. 0 \<le> i \<and> i < j \<longrightarrow> (\<exists>d e. fn r i = Returns d (Some e))"
    by auto
  from hang_blocks_loop [OF tm nc hang J _ fails] show "returned (Exec r rnd now) = None"
    by (simp add: Exec_def)
qed

text \<open>
  Unless the attempt was cancelled, every operation on its channel completes: the
  send of the goroutine, early or late, and the receive.
\<close>

lemma handoff_completes:
  assumes "a \<in> set (attempts (Exec r rnd now))" and "winner a \<noteq> Some RecvDone"
  shows "\<exists>ch. handoff_result a = Inr ch"
proof -
  let ?R = "Exec_loop r rnd 0 \<lparr>Err = None, Retries = - 1, Timeout = 0\<rparr> now"
  from assms(1) obtain j where j: "j < length (attempts ?R)" and a: "a = attempts ?R ! j"
    by (auto simp: Exec_def in_set_conv_nth)
  note h = attempt_handoff [OF j, folded a]
  show ?thesis
  proof (cases "race a")
    case None
    with h show ?thesis by (simp add: handoff_result_def)
  next
    case (Some p)
    obtain w t where p: "p = (w, t)" by (cases p)
    show ?thesis
    proof (cases w)
      case (RecvCh v)
      with h Some p show ?thesis by (simp add: handoff_result_def make_chan_def)
    next
      case RecvTimeout
      with h Some p show ?thesis
        by (cases "fn r (0 + j)")
          (auto simp: handoff_result_def sent_by_def sent_after_def completes_def make_chan_def)
    next
      case RecvDone
      with assms(2) Some p show ?thesis by (simp add: winner_def)
    qed
  qed
qed

lemma classify_reported:
  assumes "\<forall>m. w = RecvCh (Some (errorString m)) \<longrightarrow> m \<noteq> TIMEOUT_ERROR \<and> m \<noteq> CANCEL_ERROR"
  shows "classify (reported w) = ended w"
proof (cases w)
  case (RecvCh v')
  with assms show ?thesis
    by (auto simp: classify_def ended_def split: option.splits error.splits)
next
  case RecvTimeout
  then show ?thesis by (simp add: classify_def ended_def errors_New_def)
next
  case RecvDone
  then show ?thesis
    by (simp add: classify_def ended_def errors_New_def TIMEOUT_ERROR_def CANCEL_ERROR_def)
qed

text \<open>
  C8 as stated has \<^verbatim>\<open>Exec\<close> always return, and the three failures told apart by
  \<open>Err\<close>. With the default timeout 0 and no cancellation, a call that never returns
  leaves the select without a case, and \<^verbatim>\<open>Exec\<close> never returns. And \<open>Err\<close> carries
  nothing but a message: an operation that fails with the message of the timeout
  error leaves the same \<open>Err\<close> as a timeout does.
\<close>

theorem Exec_blocks_for_ever_counterexample:
  "returned (Exec (Retry (\<lambda>_. Hangs)) (\<lambda>_. 0) 0) = None
   \<and> Exec (Retry (\<lambda>_. Returns 5 (Some (errors_New TIMEOUT_ERROR)))) (\<lambda>_. 0) 0 =
       \<lparr>returned = Some (\<lparr>Err = Some (errors_New TIMEOUT_ERROR), Retries = 0, Timeout = 0\<rparr>, 5),
        attempts = [\<lparr>started = 0, race = Some (RecvCh (Some (errors_New TIMEOUT_ERROR)), 5),
                     slept = 0, handoff = [Send (Some (errors_New TIMEOUT_ERROR)), Recv]\<rparr>]\<rparr>
   \<and> Exec (SetTimeout (Retry (\<lambda>_. Hangs)) 5) (\<lambda>_. 0) 0 =
       \<lparr>returned = Some (\<lparr>Err = Some (errors_New TIMEOUT_ERROR), Retries = 0, Timeout = 1\<rparr>, 5),
        attempts = [\<lparr>started = 0, race = Some (RecvTimeout, 5), slept = 0, handoff = []\<rparr>]\<rparr>"
  by code_simp

text \<open>
  C8, amended: \<^verbatim>\<open>Exec\<close> returns a Stats value, except when the timeout is 0, the run
  is never cancelled and, after calls that all failed, a call within \<open>retries\<close> never
  returns: exactly then it blocks for ever. Operation errors and timeouts are not
  fatal: in every attempt that was not ended by the cancellation signal all operations
  on the channel complete, the late send after a timeout included. All three failures
  are reported through \<open>Err\<close>: a run that returns after at least one attempt reports
  what ended its last attempt, the operation's own error, the timeout error or the
  cancellation error, and the message of \<open>Err\<close> tells which of the three it was as
  long as the operation returns no error with one of the two messages of \<^verbatim>\<open>Exec\<close>.
  Nothing is said here of the channel of an attempt ended by the signal, which is the
  subject of C1.
\<close>

theorem Exec_returns_Stats:
  "(returned (Exec r rnd now) = None \<longleftrightarrow>
      timeout r = 0 \<and> cancelContext r = None
      \<and> (\<exists>j. int j < retries r \<and> fn r j = Hangs
             \<and> (\<forall>i < j. \<exists>d e. fn r i = Returns d (Some e))))
   \<and> (\<forall>a \<in> set (attempts (Exec r rnd now)).
        winner a \<noteq> Some RecvDone \<longrightarrow> (\<exists>ch. handoff_result a = Inr ch))
   \<and> (\<forall>st t. returned (Exec r rnd now) = Some (st, t) \<longrightarrow>
        (if attempts (Exec r rnd now) = [] then Err st = None
         else \<exists>w t'. race (last (attempts (Exec r rnd now))) = Some (w, t')
                \<and> Err st = (case w of
                              RecvCh v \<Rightarrow> v
                            | RecvTimeout \<Rightarrow> Some (errors_New TIMEOUT_ERROR)
                            | RecvDone \<Rightarrow> Some (errors_New CANCEL_ERROR))
                \<and> ((\<forall>i d m. fn r i = Returns d (Some (errorString m)) \<longrightarrow>
                       m \<noteq> TIMEOUT_ERROR \<and> m \<noteq> CANCEL_ERROR) \<longrightarrow>
                     classify (Err st) = ended w)))"
proof (intro conjI ballI allI impI)
  let ?R = "Exec_loop r rnd 0 \<lparr>Err = None, Retries = - 1, Timeout = 0\<rparr> now"
  show "returned (Exec r rnd now) = None \<longleftrightarrow>
      timeout r = 0 \<and> cancelContext r = None
      \<and> (\<exists>j. int j < retries r \<and> fn r j = Hangs
             \<and> (\<forall>i < j. \<exists>d e. fn r i = Returns d (Some e)))"
    by (rule Exec_blocked_iff)
  show "\<exists>ch. handoff_result a = Inr ch"
    if "a \<in> set (attempts (Exec r rnd now))" "winner a \<noteq> Some RecvDone" for a
    using that by (rule handoff_completes)
  fix st t assume "returned (Exec r rnd now) = Some (st, t)"
  then have ret: "returned ?R = Some (st, t)" by (simp add: Exec_def)
  note out = loop_returned [OF ret]
  have "if attempts ?R = [] then Err st = None
         else \<exists>w t'. race (last (attempts ?R)) = Some (w, t')
                \<and> Err st = (case w of
                              RecvCh v \<Rightarrow> v
                            | RecvTimeout \<Rightarrow> Some (errors_New TIMEOUT_ERROR)
                            | RecvDone \<Rightarrow> Some (errors_New CANCEL_ERROR))
                \<and> ((\<forall>i d m. fn r i = Returns d (Some (errorString m)) \<longrightarrow>
                       m \<noteq> TIMEOUT_ERROR \<and> m \<noteq> CANCEL_ERROR) \<longrightarrow>
                     classify (Err st) = ended w)"
  proof (cases "attempts ?R = []")
    case True
    with out show ?thesis by simp
  next
    case False
    with out obtain w t' where last: "race (last (attempts ?R)) = Some (w, t')"
      and err: "Err st = reported w" by auto
    define j where "j = length (attempts ?R) - 1"
    from False have j: "j < length (attempts ?R)" and len: "length (attempts ?R) = Suc j"
      by (simp_all add: j_def)
    from last_is_nth [OF len] last have "race (attempts ?R ! j) = Some (w, t')" by simp
    with attempt_race [OF j]
    have s: "sel r rnd j (started (attempts ?R ! j)) = Some (w, t')" by simp
    have "classify (Err st) = ended w"
      if free: "\<forall>i d m. fn r i = Returns d (Some (errorString m)) \<longrightarrow>
                       m \<noteq> TIMEOUT_ERROR \<and> m \<noteq> CANCEL_ERROR"
    proof -
      have "\<forall>m. w = RecvCh (Some (errorString m)) \<longrightarrow> m \<noteq> TIMEOUT_ERROR \<and> m \<noteq> CANCEL_ERROR"
        using s sel_RecvCh free by blast
      then show ?thesis unfolding err by (rule classify_reported)
    qed
    with False last err show ?thesis
      by (auto simp: reported_def)
  qed
  then show "if attempts (Exec r rnd now) = [] then Err st = None
         else \<exists>w t'. race (last (attempts (Exec r rnd now))) = Some (w, t')
                \<and> Err st = (case w of
                              RecvCh v \<Rightarrow> v
                            | RecvTimeout \<Rightarrow> Some (errors_New TIMEOUT_ERROR)
                            | RecvDone \<Rightarrow> Some (errors_New CANCEL_ERROR))
                \<and> ((\<forall>i d m. fn r i = Returns d (Some (errorString m)) \<longrightarrow>
                       m \<noteq> TIMEOUT_ERROR \<and> m \<noteq> CANCEL_ERROR) \<longrightarrow>
                     classify (Err st) = ended w)"
    unfolding Exec_def .
qed

theorem Exec_returns_Stats_witness:
  "returned (Exec flaky_cfg (\<lambda>_. 0) 0) = Some (\<lparr>Err = None, Retries = 2, Timeout = 1\<rparr>, 19)
   \<and> map winner (attempts (Exec flaky_cfg (\<lambda>_. 0) 0)) =
        [Some (RecvCh (Some boom)), Some RecvTimeout, Some (RecvCh None)]
   \<and> (\<exists>c0 c1 c2. map handoff_result (attempts (Exec flaky_cfg (\<lambda>_. 0) 0)) = [Inr c0, Inr c1, Inr c2])
   \<and> returned (Exec failing_cfg (\<lambda>_. 0) 0) = Some (\<lparr>Err = Some boom, Retries = 2, Timeout = 0\<rparr>, 21)
   \<and> race (last (attempts (Exec failing_cfg (\<lambda>_. 0) 0))) = Some (RecvCh (Some boom), 19)
   \<and> fn failing_cfg 2 = Returns 5 (Some boom)
   \<and> classify (Some boom) = Failed \<and> ended (RecvCh (Some boom)) = Failed"
proof -
  let ?F = "Exec flaky_cfg (\<lambda>_. 0) 0" and ?G = "Exec failing_cfg (\<lambda>_. 0) 0"
  note thF = Exec_returns_Stats [of flaky_cfg "\<lambda>_. 0" 0]
  note thG = Exec_returns_Stats [of failing_cfg "\<lambda>_. 0" 0]
  have r: "returned ?F = Some (\<lparr>Err = None, Retries = 2, Timeout = 1\<rparr>, 19)"
    by (simp add: flaky_run)
  have w: "map winner (attempts ?F) = [Some (RecvCh (Some boom)), Some RecvTimeout, Some (RecvCh None)]"
    by (simp add: flaky_run winner_def)
  have a: "attempts ?F ! 0 \<in> set (attempts ?F)" "attempts ?F ! 1 \<in> set (attempts ?F)"
    "attempts ?F ! 2 \<in> set (attempts ?F)"
    by (simp_all add: flaky_run)
  have n: "winner (attempts ?F ! 0) \<noteq> Some RecvDone" "winner (attempts ?F ! 1) \<noteq> Some RecvDone"
    "winner (attempts ?F ! 2) \<noteq> Some RecvDone"
    by (simp_all add: flaky_run winner_def)
  note safe = thF [THEN conjunct2, THEN conjunct1, rule_format]
  from safe [OF a(1) n(1)] safe [OF a(2) n(2)] safe [OF a(3) n(3)]
  obtain c0 c1 c2 where "handoff_result (attempts ?F ! 0) = Inr c0"
    "handoff_result (attempts ?F ! 1) = Inr c1" "handoff_result (attempts ?F ! 2) = Inr c2"
    by blast
  then have h: "\<exists>c0 c1 c2. map handoff_result (attempts ?F) = [Inr c0, Inr c1, Inr c2]"
    by (simp add: flaky_run)
  have g: "returned ?G = Some (\<lparr>Err = Some boom, Retries = 2, Timeout = 0\<rparr>, 21)"
    by (simp add: failing_run)
  have l: "race (last (attempts ?G)) = Some (RecvCh (Some boom), 19)"
    by (simp add: failing_run)
  have ne: "attempts ?G \<noteq> []" by (simp add: failing_run)
  have msg: "\<forall>i d m. fn failing_cfg i = Returns d (Some (errorString m)) \<longrightarrow>
                 m \<noteq> TIMEOUT_ERROR \<and> m \<noteq> CANCEL_ERROR"
    by (simp add: failing_fields boom_def errors_New_def TIMEOUT_ERROR_def CANCEL_ERROR_def)
  note last = thG [THEN conjunct2, THEN conjunct2, rule_format, OF g, unfolded if_not_P [OF ne]]
  from last obtain w' t' where k: "race (last (attempts ?G)) = Some (w', t')"
    and c: "(\<forall>i d m. fn failing_cfg i = Returns d (Some (errorString m)) \<longrightarrow>
                 m \<noteq> TIMEOUT_ERROR \<and> m \<noteq> CANCEL_ERROR) \<longrightarrow>
            classify (Err \<lparr>Err = Some boom, Retries = 2, Timeout = 0\<rparr>) = ended w'"
    by blast
  from k l have "w' = RecvCh (Some boom)" by simp
  with c msg have cl: "classify (Some boom) = ended (RecvCh (Some boom))" by simp
  have e: "ended (RecvCh (Some boom)) = Failed" by (simp add: ended_def)
  have f: "fn failing_cfg 2 = Returns 5 (Some boom)" by (simp add: failing_fields)
  from r w h g l f cl e show ?thesis by simp
qed

subsection \<open>C9: no retries\<close>

text \<open>
  C9: after \<^verbatim>\<open>SetRetries\<close> with 0 or a negative number, \<^verbatim>\<open>Exec\<close> makes no iteration
  (the operation is never invoked) and returns at once
  \<^verbatim>\<open>Stats{Err: nil, Retries: -1, Timeout: 0}\<close>.
\<close>

theorem Exec_no_retries:
  "n \<le> 0 \<Longrightarrow>
   Exec (SetRetries r n) rnd now =
     \<lparr>returned = Some (\<lparr>Err = None, Retries = - 1, Timeout = 0\<rparr>, now), attempts = []\<rparr>"
  by (simp add: Exec_def SetRetries_def Exec_loop_stop)

theorem Exec_no_retries_witness:
  "(- 3 :: int) \<le> 0 \<and>
   Exec (SetRetries (Retry (\<lambda>_. Returns 5 None)) (- 3)) (\<lambda>_. 0) 7 =
     \<lparr>returned = Some (\<lparr>Err = None, Retries = - 1, Timeout = 0\<rparr>, 7), attempts = []\<rparr>"
  using Exec_no_retries [of "- 3" "Retry (\<lambda>_. Returns 5 None)" "\<lambda>_. 0" 7] by simp

subsection \<open>C10: one race at a time\<close>

text \<open>
  C10: the run has an attempt exactly when \<open>retries \<ge> 1\<close>, and the first starts with
  the run. The race of attempt \<open>j\<close>, started at \<open>s\<close>, is measured against the
  configuration: call \<open>j\<close> returning after \<open>d\<close> is ready at \<open>s + d\<close>, a timeout
  \<open>T \<noteq> 0\<close> at \<open>s + max 0 T\<close>, a cancellation made at \<open>c\<close> at \<open>max s c\<close>. The race
  stays unresolved only when none of the three ever is ready, and the run ends there
  without returning. Otherwise it is resolved at an instant \<open>t \<ge> s\<close> that is not
  later than any of the three, by a source that is ready exactly at \<open>t\<close>. A next attempt
  exists exactly when \<open>retries\<close> allows one and the race was resolved by the timer or
  by an error of the operation; it starts at \<open>t\<close> plus the sleep, never before \<open>t\<close>.
\<close>

theorem Exec_races_in_sequence:
  "(attempts (Exec r rnd now) = [] \<longleftrightarrow> retries r \<le> 0)
   \<and> (\<forall>j < length (attempts (Exec r rnd now)).
        int j < retries r
        \<and> (j = 0 \<longrightarrow> started (attempts (Exec r rnd now) ! j) = now)
        \<and> (case race (attempts (Exec r rnd now) ! j) of
             None \<Rightarrow>
               fn r j = Hangs \<and> timeout r = 0 \<and> cancelContext r = None
               \<and> Suc j = length (attempts (Exec r rnd now))
               \<and> returned (Exec r rnd now) = None
           | Some (w, t) \<Rightarrow>
               started (attempts (Exec r rnd now) ! j) \<le> t
               \<and> (\<forall>d v. fn r j = Returns d v \<longrightarrow>
                     t \<le> started (attempts (Exec r rnd now) ! j) + int d)
               \<and> (timeout r \<noteq> 0 \<longrightarrow>
                     t \<le> started (attempts (Exec r rnd now) ! j) + max 0 (timeout r))
               \<and> (\<forall>c. cancelContext r = Some c \<longrightarrow>
                     t \<le> max (started (attempts (Exec r rnd now) ! j)) c)
               \<and> (case w of
                     RecvCh v \<Rightarrow>
                       \<exists>d. fn r j = Returns d v
                         \<and> t = started (attempts (Exec r rnd now) ! j) + int d
                   | RecvTimeout \<Rightarrow>
                       timeout r \<noteq> 0
                       \<and> t = started (attempts (Exec r rnd now) ! j) + max 0 (timeout r)
                   | RecvDone \<Rightarrow>
                       \<exists>c. cancelContext r = Some c
                         \<and> t = max (started (attempts (Exec r rnd now) ! j)) c)
               \<and> (Suc j < length (attempts (Exec r rnd now)) \<longleftrightarrow>
                     int (Suc j) < retries r
                     \<and> (w = RecvTimeout \<or> (\<exists>e. w = RecvCh (Some e))))
               \<and> (Suc j < length (attempts (Exec r rnd now)) \<longrightarrow>
                     started (attempts (Exec r rnd now) ! Suc j)
                       = t + slept (attempts (Exec r rnd now) ! j)
                     \<and> t \<le> started (attempts (Exec r rnd now) ! Suc j))))"
proof -
  let ?st = "\<lparr>Err = None, Retries = - 1, Timeout = 0\<rparr>"
  let ?R = "Exec_loop r rnd 0 ?st now"
  have empty: "attempts ?R = [] \<longleftrightarrow> retries r \<le> 0"
    using attempts_empty_iff [of r rnd 0 ?st now] by auto
  have each: "int j < retries r
        \<and> (j = 0 \<longrightarrow> started (attempts ?R ! j) = now)
        \<and> (case race (attempts ?R ! j) of
             None \<Rightarrow>
               fn r j = Hangs \<and> timeout r = 0 \<and> cancelContext r = None
               \<and> Suc j = length (attempts ?R) \<and> returned ?R = None
           | Some (w, t) \<Rightarrow>
               started (attempts ?R ! j) \<le> t
               \<and> (\<forall>d v. fn r j = Returns d v \<longrightarrow> t \<le> started (attempts ?R ! j) + int d)
               \<and> (timeout r \<noteq> 0 \<longrightarrow> t \<le> started (attempts ?R ! j) + max 0 (timeout r))
               \<and> (\<forall>c. cancelContext r = Some c \<longrightarrow> t \<le> max (started (attempts ?R ! j)) c)
               \<and> (case w of
                     RecvCh v \<Rightarrow>
                       \<exists>d. fn r j = Returns d v \<and> t = started (attempts ?R ! j) + int d
                   | RecvTimeout \<Rightarrow>
                       timeout r \<noteq> 0 \<and> t = started (attempts ?R ! j) + max 0 (timeout r)
                   | RecvDone \<Rightarrow>
                       \<exists>c. cancelContext r = Some c \<and> t = max (started (attempts ?R ! j)) c)
               \<and> (Suc j < length (attempts ?R) \<longleftrightarrow>
                     int (Suc j) < retries r
                     \<and> (w = RecvTimeout \<or> (\<exists>e. w = RecvCh (Some e))))
               \<and> (Suc j < length (attempts ?R) \<longrightarrow>
                     started (attempts ?R ! Suc j) = t + slept (attempts ?R ! j)
                     \<and> t \<le> started (attempts ?R ! Suc j)))"
    if j: "j < length (attempts ?R)" for j
  proof -
    let ?a = "attempts ?R ! j"
    from attempt_race [OF j]
    have lt: "int j < retries r" and sel: "race ?a = sel r rnd j (started ?a)"
      and slept: "slept ?a = (case race ?a of Some (w, t) \<Rightarrow> pause r w | None \<Rightarrow> 0)"
      by simp_all
    have first: "j = 0 \<longrightarrow> started ?a = now"
      using attempt_first [of r rnd 0 ?st now] j by auto
    have "case race ?a of
             None \<Rightarrow>
               fn r j = Hangs \<and> timeout r = 0 \<and> cancelContext r = None
               \<and> Suc j = length (attempts ?R) \<and> returned ?R = None
           | Some (w, t) \<Rightarrow>
               started ?a \<le> t
               \<and> (\<forall>d v. fn r j = Returns d v \<longrightarrow> t \<le> started ?a + int d)
               \<and> (timeout r \<noteq> 0 \<longrightarrow> t \<le> started ?a + max 0 (timeout r))
               \<and> (\<forall>c. cancelContext r = Some c \<longrightarrow> t \<le> max (started ?a) c)
               \<and> (case w of
                     RecvCh v \<Rightarrow> \<exists>d. fn r j = Returns d v \<and> t = started ?a + int d
                   | RecvTimeout \<Rightarrow> timeout r \<noteq> 0 \<and> t = started ?a + max 0 (timeout r)
                   | RecvDone \<Rightarrow> \<exists>c. cancelContext r = Some c \<and> t = max (started ?a) c)
               \<and> (Suc j < length (attempts ?R) \<longleftrightarrow>
                     int (Suc j) < retries r
                     \<and> (w = RecvTimeout \<or> (\<exists>e. w = RecvCh (Some e))))
               \<and> (Suc j < length (attempts ?R) \<longrightarrow>
                     started (attempts ?R ! Suc j) = t + slept ?a
                     \<and> t \<le> started (attempts ?R ! Suc j))"
    proof (cases "race ?a")
      case None
      with sel have "sel r rnd j (started ?a) = None" by simp
      then have src: "fn r j = Hangs \<and> timeout r = 0 \<and> cancelContext r = None"
        by (simp add: sel_None)
      have len: "Suc j = length (attempts ?R)"
      proof (rule ccontr)
        assume "Suc j \<noteq> length (attempts ?R)"
        with j have "Suc j < length (attempts ?R)" by simp
        from attempt_chain [OF this] None show False by simp
      qed
      then have last: "last (attempts ?R) = ?a" and ne: "attempts ?R \<noteq> []"
        using last_is_nth [of "attempts ?R" j] by simp_all
      have "returned ?R = None"
      proof (cases "returned ?R")
        case (Some p)
        obtain st' t' where "p = (st', t')" by (cases p)
        with Some loop_returned [of r rnd 0 ?st now st' t'] ne last None show ?thesis by simp
      qed simp
      with None src len show ?thesis by simp
    next
      case (Some p)
      obtain w t where p: "p = (w, t)" by (cases p)
      with Some sel have s: "sel r rnd j (started ?a) = Some (w, t)" by simp
      note least = sel_least [OF s]
      have src: "case w of
                     RecvCh v \<Rightarrow> \<exists>d. fn r j = Returns d v \<and> t = started ?a + int d
                   | RecvTimeout \<Rightarrow> timeout r \<noteq> 0 \<and> t = started ?a + max 0 (timeout r)
                   | RecvDone \<Rightarrow> \<exists>c. cancelContext r = Some c \<and> t = max (started ?a) c"
      proof (cases w)
        case (RecvCh v)
        with s sel_RecvCh [of r rnd j "started ?a" v t] show ?thesis by simp
      next
        case RecvTimeout
        with s sel_RecvTimeout [of r rnd j "started ?a" t] show ?thesis by simp
      next
        case RecvDone
        with s sel_RecvDone [of r rnd j "started ?a" t] show ?thesis by simp
      qed
      have nonneg: "0 \<le> slept ?a"
        using slept Some p by (simp add: pause_def split: fired.splits option.splits)
      have more: "Suc j < length (attempts ?R) \<longleftrightarrow>
                     int (Suc j) < retries r
                     \<and> (w = RecvTimeout \<or> (\<exists>e. w = RecvCh (Some e)))"
      proof
        assume sj: "Suc j < length (attempts ?R)"
        from attempt_race [OF sj] have "int (Suc j) < retries r" by simp
        moreover from attempt_chain [OF sj] Some p
        have "w = RecvTimeout \<or> (\<exists>e. w = RecvCh (Some e))" by simp
        ultimately show "int (Suc j) < retries r
                     \<and> (w = RecvTimeout \<or> (\<exists>e. w = RecvCh (Some e)))" ..
      next
        assume "int (Suc j) < retries r
                     \<and> (w = RecvTimeout \<or> (\<exists>e. w = RecvCh (Some e)))"
        then have "int (0 + Suc j) < retries r" "w = RecvTimeout \<or> (\<exists>e. w = RecvCh (Some e))"
          by simp_all
        with attempt_next [OF j] Some p show "Suc j < length (attempts ?R)" by simp
      qed
      have chain: "Suc j < length (attempts ?R) \<longrightarrow>
                     started (attempts ?R ! Suc j) = t + slept ?a
                     \<and> t \<le> started (attempts ?R ! Suc j)"
      proof
        assume "Suc j < length (attempts ?R)"
        from attempt_chain [OF this] Some p nonneg
        show "started (attempts ?R ! Suc j) = t + slept ?a \<and> t \<le> started (attempts ?R ! Suc j)"
          by simp
      qed
      have l1: "started ?a \<le> t" by (rule least(1))
      have l2: "\<forall>d v. fn r j = Returns d v \<longrightarrow> t \<le> started ?a + int d"
        using least(2) by blast
      have l3: "timeout r \<noteq> 0 \<longrightarrow> t \<le> started ?a + max 0 (timeout r)"
        using least(3) by blast
      have l4: "\<forall>c. cancelContext r = Some c \<longrightarrow> t \<le> max (started ?a) c"
        using least(4) by blast
      show ?thesis
        unfolding Some p option.case prod.case
        by (intro conjI l1 l2 l3 l4 src more chain)
    qed
    with lt first show ?thesis by simp
  qed
  from empty each show ?thesis unfolding Exec_def by blast
qed

theorem Exec_races_in_sequence_witness:
  "length (attempts (Exec cancelled_cfg (\<lambda>_. 0) 0)) = 2
   \<and> retries cancelled_cfg = 3 \<and> timeout cancelled_cfg = 0 \<and> cancelContext cancelled_cfg = Some 20
   \<and> fn cancelled_cfg 0 = Returns 5 (Some boom) \<and> fn cancelled_cfg 1 = Hangs
   \<and> started (attempts (Exec cancelled_cfg (\<lambda>_. 0) 0) ! 0) = 0
   \<and> race (attempts (Exec cancelled_cfg (\<lambda>_. 0) 0) ! 0) = Some (RecvCh (Some boom), 0 + int 5)
   \<and> slept (attempts (Exec cancelled_cfg (\<lambda>_. 0) 0) ! 0) = 3
   \<and> started (attempts (Exec cancelled_cfg (\<lambda>_. 0) 0) ! 1) = 5 + 3
   \<and> race (attempts (Exec cancelled_cfg (\<lambda>_. 0) 0) ! 1) = Some (RecvDone, max 8 20)"
proof -
  let ?A = "attempts (Exec cancelled_cfg (\<lambda>_. 0) 0)"
  note c = cancelled_fields
  note th = Exec_races_in_sequence [of cancelled_cfg "\<lambda>_. 0" 0, THEN conjunct2, rule_format]
  have len: "length ?A = 2" by (simp add: cancelled_run)
  have j0: "0 < length ?A" and j1: "1 < length ?A" by (simp_all add: len)
  have r0: "\<exists>t. race (?A ! 0) = Some (RecvCh (Some boom), t)"
    and r1: "\<exists>t. race (?A ! 1) = Some (RecvDone, t)"
    and sl: "slept (?A ! 0) = 3"
    by (simp_all add: cancelled_run)
  from r0 obtain t0 where t0: "race (?A ! 0) = Some (RecvCh (Some boom), t0)" ..
  from r1 obtain t1 where t1: "race (?A ! 1) = Some (RecvDone, t1)" ..
  from th [OF j0] have s0: "started (?A ! 0) = 0" by blast
  from th [OF j0] have "\<exists>d. fn cancelled_cfg 0 = Returns d (Some boom) \<and> t0 = started (?A ! 0) + int d"
    unfolding t0 option.case prod.case fired.case by blast
  then have e0: "t0 = 0 + int 5" by (simp add: c s0)
  from th [OF j0] j1 have "started (?A ! Suc 0) = t0 + slept (?A ! 0)"
    unfolding t0 option.case prod.case fired.case by simp
  then have s1: "started (?A ! 1) = 5 + 3" by (simp add: e0 sl)
  from th [OF j1] have "\<exists>c. cancelContext cancelled_cfg = Some c \<and> t1 = max (started (?A ! 1)) c"
    unfolding t1 option.case prod.case fired.case by blast
  then have e1: "t1 = max 8 20" unfolding c(3) s1 by simp
  from len c s0 t0 [unfolded e0] sl s1 t1 [unfolded e1] show ?thesis by blast
qed

end
